theory Spec2Isabelle
  imports Complex_Main "HOL-Library.Word" "HOL-Library.Log_Nat"
begin

unbundle bit_operations_syntax

section \<open>Compressed log chunks (pkg/chunkenc/memchunk.go)\<close>

text \<open>
  A shallow embedding of \<^verbatim>\<open>MemChunk\<close>: the head block, the cut blocks, the
  binary container written by \<^verbatim>\<open>Bytes\<close> and read by \<^verbatim>\<open>NewByteChunk\<close>, and the
  buffered block iterator.

  Conventions.
  \<^item> A Go \<^verbatim>\<open>byte\<close> is an \<open>8 word\<close>, \<^verbatim>\<open>uint32\<close> a \<open>32 word\<close>, \<^verbatim>\<open>uint64\<close> and
    \<^verbatim>\<open>int64\<close> a \<open>64 word\<close> (timestamps are compared as signed values).
    A Go \<^verbatim>\<open>string\<close> is its byte sequence.
  \<^item> A Go \<^verbatim>\<open>int\<close> that counts bytes or entries of slices held in memory is an
    \<open>int\<close>; the conversions \<^verbatim>\<open>uint64(x)\<close> and \<^verbatim>\<open>int(u)\<close> between it and the
    64-bit values of the wire format are written out, so that a value decoded from
    untrusted bytes can be negative.
  \<^item> A method that mutates its receiver takes the state and returns the new one.
    An \<^verbatim>\<open>error\<close> result is a value of the type \<open>error\<close>; a run-time panic
    (slice bounds out of range, nil dereference, \<^verbatim>\<open>panic(err)\<close>) is the value
    \<open>RuntimePanic\<close>.
\<close>

type_synonym byte = "8 word"
type_synonym bytes = "byte list"

datatype error =
    ErrOutOfOrder
  | ErrInvalidChecksum
  | ErrInvalidSize
  | ErrInvalidMagic "32 word"
  | ErrInvalidVersion byte
  | ErrLineTooLong int
  | ErrNoLineBuffer int int
  | ErrEOF
  | ErrUnexpectedEOF
  | ErrOverflow
  | ErrExternal nat
  | Wrap error string
  | RuntimePanic

subsection \<open>Go's encoding/binary and hash/crc32\<close>

text \<open>
  \<^verbatim>\<open>binary.PutUvarint\<close>: seven bits per byte, least significant group first, the high
  bit set on every byte but the last.
\<close>

function PutUvarint :: "64 word \<Rightarrow> bytes" where
  "PutUvarint x =
     (if 0x80 \<le> x then (ucast x OR 0x80) # PutUvarint (drop_bit 7 x) else [ucast x])"
  by pat_completeness auto
termination
proof (relation "measure unat")
  show "wf (measure (unat :: 64 word \<Rightarrow> nat))"
    by simp
next
  fix x :: "64 word"
  assume "0x80 \<le> x"
  then have "0 < unat x"
    by (simp add: word_le_nat_alt)
  then have "unat x div 2 ^ 7 < unat x"
    by simp
  then show "(drop_bit 7 x, x) \<in> measure unat"
    by (simp add: drop_bit_eq_div unat_div)
qed

declare PutUvarint.simps [simp del]

text \<open>\<^verbatim>\<open>binary.PutVarint\<close>: the zig-zag encoding of a signed value.\<close>

definition zigzag :: "64 word \<Rightarrow> 64 word" where
  "zigzag x = (let ux = push_bit 1 x in if x <s 0 then NOT ux else ux)"

definition PutVarint :: "64 word \<Rightarrow> bytes" where
  "PutVarint x = PutUvarint (zigzag x)"

text \<open>
  \<^verbatim>\<open>binary.Uvarint\<close> on a slice: the value and the number of bytes read; \<open>(0, 0)\<close>
  when the slice ends too early, \<open>(0, -(i + 1))\<close> on overflow. The loop's variables
  \<^verbatim>\<open>i\<close>, \<^verbatim>\<open>s\<close> and \<^verbatim>\<open>x\<close> are the first three arguments.
\<close>

definition MaxVarintLen64 :: nat where
  "MaxVarintLen64 = 10"

fun Uvarint_loop :: "nat \<Rightarrow> nat \<Rightarrow> 64 word \<Rightarrow> bytes \<Rightarrow> 64 word \<times> int" where
  "Uvarint_loop i sh x [] = (0, 0)"
| "Uvarint_loop i sh x (c # cs) =
     (if i = MaxVarintLen64 then (0, - (int i + 1))
      else if c < 0x80 then
        (if i = MaxVarintLen64 - 1 \<and> 1 < c then (0, - (int i + 1))
         else (x OR push_bit sh (ucast c), int i + 1))
      else Uvarint_loop (i + 1) (sh + 7) (x OR push_bit sh (ucast (c AND 0x7f))) cs)"

definition Uvarint :: "bytes \<Rightarrow> 64 word \<times> int" where
  "Uvarint buf = Uvarint_loop 0 0 0 buf"

definition unzigzag :: "64 word \<Rightarrow> 64 word" where
  "unzigzag ux = (let x = drop_bit 1 ux in if ux AND 1 \<noteq> 0 then NOT x else x)"

definition Varint :: "bytes \<Rightarrow> 64 word \<times> int" where
  "Varint buf = (case Uvarint buf of (ux, n) \<Rightarrow> (unzigzag ux, n))"

text \<open>\<^verbatim>\<open>binary.BigEndian\<close>: \<^verbatim>\<open>PutUint32\<close>, \<^verbatim>\<open>PutUint64\<close>, and \<^verbatim>\<open>Uint32\<close>,
  \<^verbatim>\<open>Uint64\<close>, which panic on a slice shorter than the value (\<open>be32\<close> and \<open>be64\<close>
  are the values they read once the length is checked).\<close>

definition PutUint32 :: "32 word \<Rightarrow> bytes" where
  "PutUint32 v = [ucast (drop_bit 24 v), ucast (drop_bit 16 v), ucast (drop_bit 8 v), ucast v]"

definition PutUint64 :: "64 word \<Rightarrow> bytes" where
  "PutUint64 v =
     [ucast (drop_bit 56 v), ucast (drop_bit 48 v), ucast (drop_bit 40 v),
      ucast (drop_bit 32 v), ucast (drop_bit 24 v), ucast (drop_bit 16 v),
      ucast (drop_bit 8 v), ucast v]"

definition be32 :: "bytes \<Rightarrow> 32 word" where
  "be32 p = ucast (p ! 3) OR push_bit 8 (ucast (p ! 2)) OR push_bit 16 (ucast (p ! 1)) OR
     push_bit 24 (ucast (p ! 0))"

definition be64 :: "bytes \<Rightarrow> 64 word" where
  "be64 p = ucast (p ! 7) OR push_bit 8 (ucast (p ! 6)) OR push_bit 16 (ucast (p ! 5)) OR
     push_bit 24 (ucast (p ! 4)) OR push_bit 32 (ucast (p ! 3)) OR push_bit 40 (ucast (p ! 2)) OR
     push_bit 48 (ucast (p ! 1)) OR push_bit 56 (ucast (p ! 0))"

definition Uint32 :: "bytes \<Rightarrow> error + 32 word" where
  "Uint32 p = (if length p < 4 then Inl RuntimePanic else Inr (be32 p))"

definition Uint64 :: "bytes \<Rightarrow> error + 64 word" where
  "Uint64 p = (if length p < 8 then Inl RuntimePanic else Inr (be64 p))"

text \<open>
  \<^verbatim>\<open>crc32.Checksum(data, castagnoliTable)\<close>: the reflected CRC-32C, polynomial
  \<open>0x82F63B78\<close>, initial value and final complement \<open>0xFFFFFFFF\<close>.
\<close>

definition crc_step :: "32 word \<Rightarrow> 32 word" where
  "crc_step c = (if c AND 1 = 1 then drop_bit 1 c XOR 0x82F63B78 else drop_bit 1 c)"

definition crc_byte :: "32 word \<Rightarrow> byte \<Rightarrow> 32 word" where
  "crc_byte c x = (crc_step ^^ 8) (c XOR ucast x)"

definition crc32c :: "bytes \<Rightarrow> 32 word" where
  "crc32c data = NOT (foldl crc_byte (NOT 0) data)"

text \<open>The conversions \<^verbatim>\<open>uint64(x)\<close> of an \<^verbatim>\<open>int\<close> and \<^verbatim>\<open>int(u)\<close> of a \<^verbatim>\<open>uint64\<close>.\<close>

definition uint64_of_int :: "int \<Rightarrow> 64 word" where
  "uint64_of_int x = word_of_int x"

definition int_of_uint64 :: "64 word \<Rightarrow> int" where
  "int_of_uint64 u = sint u"


text \<open>
  A slice expression \<^verbatim>\<open>p[lo:hi]\<close> panics unless \<open>0 \<le> lo \<le> hi \<le> cap(p)\<close>; the byte
  slices of this file are taken with their capacity equal to their length.
  \<^verbatim>\<open>p[lo:]\<close> is \<^verbatim>\<open>p[lo:len(p)]\<close>. An \<^verbatim>\<open>int\<close> sum of two decoded values wraps.
\<close>

definition subslice :: "bytes \<Rightarrow> int \<Rightarrow> int \<Rightarrow> error + bytes" where
  "subslice p lo hi =
     (if 0 \<le> lo \<and> lo \<le> hi \<and> hi \<le> int (length p)
      then Inr (take (nat (hi - lo)) (drop (nat lo) p)) else Inl RuntimePanic)"

definition subslice_from :: "bytes \<Rightarrow> int \<Rightarrow> error + bytes" where
  "subslice_from p lo = subslice p lo (int (length p))"

definition wrap_int :: "int \<Rightarrow> int" where
  "wrap_int x = sint (word_of_int x :: 64 word)"

subsection \<open>The compression adapter and the buffer pool\<close>

text \<open>
  Modelled from the spec: the compression adapter (\<^verbatim>\<open>getWriterPool\<close>, \<^verbatim>\<open>getReaderPool\<close>,
  \<^verbatim>\<open>WriterPool\<close>, \<^verbatim>\<open>ReaderPool\<close>) and \<^verbatim>\<open>BytesBufferPool\<close> of pool.go are not among
  the sources, and the compressors are libraries. They are a parameter \<open>P\<close> of
  every function that uses them:
  \<^item> \<open>compress P enc data\<close> is what writing \<open>data\<close> to a pooled writer of encoding
    \<open>enc\<close> and closing it leaves in the output buffer, or the failure of one of the
    three steps;
  \<^item> \<open>decompress P enc p\<close> is the stream a pooled reader of encoding \<open>enc\<close> over
    \<open>p\<close> delivers: the bytes that can be read, and the error that follows them
    (\<open>ErrEOF\<close> at a regular end); \<open>Inl\<close> when getting the reader panics;
  \<^item> \<open>line_buffer_cap P n\<close> is the capacity of the slice \<^verbatim>\<open>BytesBufferPool.Get(n)\<close>
    returns.
\<close>

datatype written = GetWriterPanics | WriteFails error | CloseFails error | Written bytes

record stream =
  pending :: bytes
  ending :: error

record pools =
  compress :: "byte \<Rightarrow> bytes \<Rightarrow> written"
  decompress :: "byte \<Rightarrow> bytes \<Rightarrow> error + stream"
  line_buffer_cap :: "int \<Rightarrow> int"

subsection \<open>The head block\<close>

record entry =
  entry_t :: "64 word"
  entry_s :: bytes

record headBlock =
  hb_entries :: "entry list"
  hb_size :: int
  hb_mint :: "64 word"
  hb_maxt :: "64 word"

definition isEmpty :: "headBlock \<Rightarrow> bool" where
  "isEmpty hb = (length (hb_entries hb) = 0)"

definition hb_append :: "headBlock \<Rightarrow> 64 word \<Rightarrow> bytes \<Rightarrow> error option \<times> headBlock" where
  "hb_append hb ts line =
     (if \<not> isEmpty hb \<and> ts <s hb_maxt hb then (Some ErrOutOfOrder, hb)
      else (None,
        hb\<lparr>hb_entries := hb_entries hb @ [\<lparr>entry_t = ts, entry_s = line\<rparr>],
           hb_mint := (if hb_mint hb = 0 \<or> ts <s hb_mint hb then ts else hb_mint hb),
           hb_maxt := ts,
           hb_size := hb_size hb + int (length line)\<rparr>))"

definition serialise_entry :: "entry \<Rightarrow> bytes" where
  "serialise_entry e =
     PutVarint (entry_t e) @ PutUvarint (uint64_of_int (int (length (entry_s e)))) @ entry_s e"

definition serialise :: "pools \<Rightarrow> byte \<Rightarrow> headBlock \<Rightarrow> error + bytes" where
  "serialise P enc hb =
     (case compress P enc (concat (map serialise_entry (hb_entries hb))) of
        GetWriterPanics \<Rightarrow> Inl RuntimePanic
      | WriteFails e \<Rightarrow> Inl (Wrap e ''appending entry'')
      | CloseFails e \<Rightarrow> Inl (Wrap e ''flushing pending compress buffer'')
      | Written out \<Rightarrow> Inr out)"

subsection \<open>The chunk\<close>

record block =
  blk_b :: bytes
  blk_numEntries :: int
  blk_mint :: "64 word"
  blk_maxt :: "64 word"
  blk_offset :: int
  blk_uncompressedSize :: int

record MemChunk =
  blockSize :: int
  targetSize :: int
  blocks :: "block list"
  cutBlockSize :: int
  head :: headBlock
  format :: byte
  encoding :: byte

definition blocksPerChunk :: int where
  "blocksPerChunk = 10"

definition maxLineLength :: int where
  "maxLineLength = 1024 * 1024 * 1024"

definition magicNumber :: "32 word" where
  "magicNumber = 0x12EE56A"

definition chunkFormatV1 :: byte where
  "chunkFormatV1 = 1"

definition chunkFormatV2 :: byte where
  "chunkFormatV2 = 2"

definition EncGZIP :: byte where
  "EncGZIP = 1"

definition empty_head :: headBlock where
  "empty_head = \<lparr>hb_entries = [], hb_size = 0, hb_mint = 0, hb_maxt = 0\<rparr>"

definition NewMemChunk :: "byte \<Rightarrow> int \<Rightarrow> int \<Rightarrow> MemChunk" where
  "NewMemChunk enc bsz tsz =
     \<lparr>blockSize = bsz, targetSize = tsz, blocks = [], cutBlockSize = 0,
      head = empty_head, format = chunkFormatV2, encoding = enc\<rparr>"

definition cut :: "pools \<Rightarrow> MemChunk \<Rightarrow> error option \<times> MemChunk" where
  "cut P c =
     (if isEmpty (head c) then (None, c)
      else (case serialise P (encoding c) (head c) of
          Inl e \<Rightarrow> (Some e, c)
        | Inr out \<Rightarrow> (None,
            c\<lparr>blocks := blocks c @
                 [\<lparr>blk_b = out,
                   blk_numEntries = int (length (hb_entries (head c))),
                   blk_mint = hb_mint (head c),
                   blk_maxt = hb_maxt (head c),
                   blk_offset = 0,
                   blk_uncompressedSize = hb_size (head c)\<rparr>],
              cutBlockSize := cutBlockSize c + int (length out),
              head := (head c)\<lparr>hb_entries := [], hb_mint := 0, hb_size := 0\<rparr>\<rparr>)))"

definition Append :: "pools \<Rightarrow> MemChunk \<Rightarrow> entry \<Rightarrow> error option \<times> MemChunk" where
  "Append P c e =
     (if isEmpty (head c) \<and> 0 < length (blocks c) \<and> entry_t e <s blk_maxt (last (blocks c))
      then (Some ErrOutOfOrder, c)
      else (case hb_append (head c) (entry_t e) (entry_s e) of
          (Some err, hb) \<Rightarrow> (Some err, c\<lparr>head := hb\<rparr>)
        | (None, hb) \<Rightarrow>
            (if blockSize c \<le> hb_size hb then cut P (c\<lparr>head := hb\<rparr>)
             else (None, c\<lparr>head := hb\<rparr>))))"

definition Close_chunk :: "pools \<Rightarrow> MemChunk \<Rightarrow> error option \<times> MemChunk" where
  "Close_chunk P c = cut P c"

definition Size :: "MemChunk \<Rightarrow> int" where
  "Size c =
     (\<Sum>blk \<leftarrow> blocks c. blk_numEntries blk) +
     (if \<not> isEmpty (head c) then int (length (hb_entries (head c))) else 0)"

definition SpaceFor :: "MemChunk \<Rightarrow> entry \<Rightarrow> bool" where
  "SpaceFor c e =
     (if 0 < targetSize c then
        (let newHBSize = hb_size (head c) + int (length (entry_s e))
         in cutBlockSize c + newHBSize < targetSize c)
      else int (length (blocks c)) < blocksPerChunk)"

definition UncompressedSize :: "MemChunk \<Rightarrow> int" where
  "UncompressedSize c =
     (if \<not> isEmpty (head c) then hb_size (head c) else 0) +
     (\<Sum>blk \<leftarrow> blocks c. blk_uncompressedSize blk)"

definition CompressedSize :: "MemChunk \<Rightarrow> int" where
  "CompressedSize c =
     (if \<not> isEmpty (head c) then hb_size (head c) else 0) + cutBlockSize c"

text \<open>
  A \<^verbatim>\<open>float64\<close> is a finite value, given by its sign (\<open>True\<close> for negative) and its
  magnitude, an infinity with its sign, or a NaN. \<open>round64 s x\<close> is the binary64 value
  nearest to the magnitude \<open>x\<close>, ties going to the even significand: \<open>ilog2 x\<close> is the
  exponent of \<open>x\<close>, not below that of the subnormal numbers, the significand has 53
  bits, and a result of \<open>2^1024\<close> or more is an infinity.
\<close>

datatype float64 = Float bool rat | Infinity bool | NaN

definition ilog2 :: "rat \<Rightarrow> int" where
  "ilog2 x =
     (case quotient_of x of
        (p, q) \<Rightarrow>
          (let d = int (floorlog 2 (nat p)) - int (floorlog 2 (nat q))
           in if 2 powi d \<le> x then d else d - 1))"

definition round_even :: "rat \<Rightarrow> int" where
  "round_even x =
     (let n = \<lfloor>x\<rfloor>; r = x - of_int n
      in if r < 1 / 2 then n else if 1 / 2 < r then n + 1 else if even n then n else n + 1)"

definition round64 :: "bool \<Rightarrow> rat \<Rightarrow> float64" where
  "round64 s x =
     (if x = 0 then Float s 0
      else (let e = max (ilog2 x) (- 1022); q = 2 powi (e - 52);
                y = of_int (round_even (x / q)) * q
            in if 2 ^ 1024 \<le> y then Infinity s else Float s y))"

text \<open>The conversion \<^verbatim>\<open>float64(a)\<close> of an \<^verbatim>\<open>int\<close>, and the quotient of two \<^verbatim>\<open>float64\<close>.\<close>

definition float64_of_int :: "int \<Rightarrow> float64" where
  "float64_of_int a = round64 (a < 0) (of_int \<bar>a\<bar>)"

definition float64_div :: "float64 \<Rightarrow> float64 \<Rightarrow> float64" where
  "float64_div a b =
     (case (a, b) of
        (NaN, _) \<Rightarrow> NaN
      | (_, NaN) \<Rightarrow> NaN
      | (Infinity s, Infinity t) \<Rightarrow> NaN
      | (Infinity s, Float t y) \<Rightarrow> Infinity (s \<noteq> t)
      | (Float s x, Infinity t) \<Rightarrow> Float (s \<noteq> t) 0
      | (Float s x, Float t y) \<Rightarrow>
          (if y = 0 then (if x = 0 then NaN else Infinity (s \<noteq> t))
           else round64 (s \<noteq> t) (x / y)))"

text \<open>The product \<^verbatim>\<open>blocksPerChunk*c.blockSize\<close> is a product of \<^verbatim>\<open>int\<close> and wraps.\<close>

definition Utilization :: "MemChunk \<Rightarrow> float64" where
  "Utilization c =
     (if targetSize c \<noteq> 0 then
        float64_div (float64_of_int (CompressedSize c)) (float64_of_int (targetSize c))
      else (let size = UncompressedSize c
            in float64_div (float64_of_int size)
                 (float64_of_int (wrap_int (blocksPerChunk * blockSize c)))))"


subsection \<open>Serialising: \<^verbatim>\<open>Bytes\<close>\<close>

text \<open>
  Modelled from the spec: \<^verbatim>\<open>encbuf\<close> and \<^verbatim>\<open>decbuf\<close> (encoding_helpers.go) are not
  among the sources. \<^verbatim>\<open>encbuf\<close> appends to a byte slice: \<^verbatim>\<open>putBE32\<close>, \<^verbatim>\<open>putBE64int\<close>,
  \<^verbatim>\<open>putByte\<close>, \<^verbatim>\<open>putBytes\<close>, \<^verbatim>\<open>putUvarint\<close> of an \<^verbatim>\<open>int\<close> and \<^verbatim>\<open>putVarint64\<close> append
  the encodings above, and \<^verbatim>\<open>putHash\<close> appends the big-endian CRC-32C of the
  buffer's contents. \<^verbatim>\<open>bytes.Buffer.Write\<close> returns no error.

  The first loop of \<^verbatim>\<open>Bytes\<close> stores each block's offset in the chunk and writes
  the block's bytes and their checksum; it returns the blocks, the bytes written and
  the offset reached.
\<close>

fun write_blocks :: "int \<Rightarrow> block list \<Rightarrow> block list \<times> bytes \<times> int" where
  "write_blocks offset [] = ([], [], offset)"
| "write_blocks offset (blk # rest) =
     (let eb = blk_b blk @ PutUint32 (crc32c (blk_b blk))
      in case write_blocks (offset + int (length eb)) rest of
           (rest', out, offset') \<Rightarrow> (blk\<lparr>blk_offset := offset\<rparr> # rest', eb @ out, offset'))"

definition block_meta :: "block \<Rightarrow> bytes" where
  "block_meta blk =
     PutUvarint (uint64_of_int (blk_numEntries blk)) @
     PutVarint (blk_mint blk) @
     PutVarint (blk_maxt blk) @
     PutUvarint (uint64_of_int (blk_offset blk)) @
     PutUvarint (uint64_of_int (int (length (blk_b blk))))"

definition chunk_header :: "byte \<Rightarrow> byte \<Rightarrow> bytes" where
  "chunk_header fmt enc =
     PutUint32 magicNumber @ [fmt] @ (if fmt = chunkFormatV2 then [enc] else [])"

definition block_metas :: "block list \<Rightarrow> bytes" where
  "block_metas blks =
     PutUvarint (uint64_of_int (int (length blks))) @ concat (map block_meta blks)"

definition Bytes :: "pools \<Rightarrow> MemChunk \<Rightarrow> (error + bytes) \<times> MemChunk" where
  "Bytes P c =
     (case cut P c of
        (Some e, c') \<Rightarrow> (Inl e, c')
      | (None, c') \<Rightarrow>
          (let hdr = chunk_header (format c') (encoding c')
           in case write_blocks (int (length hdr)) (blocks c') of
                (blks, body, metasOffset) \<Rightarrow>
                  (let metas = block_metas blks
                   in (Inr (hdr @ body @ metas @ PutUint32 (crc32c metas) @
                            PutUint64 (uint64_of_int metasOffset)),
                       c'\<lparr>blocks := blks\<rparr>))))"

subsection \<open>Parsing: \<^verbatim>\<open>NewByteChunk\<close>\<close>

text \<open>
  Modelled from the spec: \<^verbatim>\<open>decbuf\<close> reads from the front of a byte slice and has a
  sticky error: once a read has failed (a short read or a malformed varint,
  \<^verbatim>\<open>errInvalidSize\<close>), every later read returns zero and \<^verbatim>\<open>err()\<close> returns that error.
  \<^verbatim>\<open>crc32()\<close> is the checksum of the bytes that remain.
\<close>

record decbuf =
  db_b :: bytes
  db_e :: "error option"

definition db_be32 :: "decbuf \<Rightarrow> 32 word \<times> decbuf" where
  "db_be32 d =
     (if db_e d \<noteq> None then (0, d)
      else if length (db_b d) < 4 then (0, d\<lparr>db_e := Some ErrInvalidSize\<rparr>)
      else (be32 (db_b d), d\<lparr>db_b := drop 4 (db_b d)\<rparr>))"

definition db_byte :: "decbuf \<Rightarrow> byte \<times> decbuf" where
  "db_byte d =
     (if db_e d \<noteq> None then (0, d)
      else if length (db_b d) < 1 then (0, d\<lparr>db_e := Some ErrInvalidSize\<rparr>)
      else (db_b d ! 0, d\<lparr>db_b := drop 1 (db_b d)\<rparr>))"

definition db_uvarint64 :: "decbuf \<Rightarrow> 64 word \<times> decbuf" where
  "db_uvarint64 d =
     (if db_e d \<noteq> None then (0, d)
      else (case Uvarint (db_b d) of
          (x, n) \<Rightarrow>
            if n < 1 then (0, d\<lparr>db_e := Some ErrInvalidSize\<rparr>)
            else (x, d\<lparr>db_b := drop (nat n) (db_b d)\<rparr>)))"

definition db_uvarint :: "decbuf \<Rightarrow> int \<times> decbuf" where
  "db_uvarint d = (case db_uvarint64 d of (x, d') \<Rightarrow> (int_of_uint64 x, d'))"

definition db_varint64 :: "decbuf \<Rightarrow> 64 word \<times> decbuf" where
  "db_varint64 d =
     (if db_e d \<noteq> None then (0, d)
      else (case Varint (db_b d) of
          (x, n) \<Rightarrow>
            if n < 1 then (0, d\<lparr>db_e := Some ErrInvalidSize\<rparr>)
            else (x, d\<lparr>db_b := drop (nat n) (db_b d)\<rparr>)))"

definition db_crc32 :: "decbuf \<Rightarrow> 32 word" where
  "db_crc32 d = crc32c (db_b d)"

text \<open>
  One round of the loop over the block metas, then the rounds that remain: \<open>p\<close> is
  the whole input, \<open>n\<close> the number of rounds left, \<open>blks\<close> and \<open>cbs\<close> are
  \<^verbatim>\<open>bc.blocks\<close> and \<^verbatim>\<open>bc.cutBlockSize\<close>. A block whose checksum does not match is
  skipped by \<^verbatim>\<open>continue\<close>, before \<^verbatim>\<open>db.err()\<close> is looked at.
\<close>

fun read_blocks ::
  "bytes \<Rightarrow> nat \<Rightarrow> decbuf \<Rightarrow> block list \<Rightarrow> int \<Rightarrow> error + block list \<times> int" where
  "read_blocks p 0 d blks cbs = Inr (blks, cbs)"
| "read_blocks p (Suc n) d blks cbs =
     (case db_uvarint d of (numEntries, d1) \<Rightarrow>
      case db_varint64 d1 of (mint, d2) \<Rightarrow>
      case db_varint64 d2 of (maxt, d3) \<Rightarrow>
      case db_uvarint d3 of (offset, d4) \<Rightarrow>
      case db_uvarint d4 of (l, d5) \<Rightarrow>
      case subslice p offset (wrap_int (offset + l)) of
        Inl e \<Rightarrow> Inl e
      | Inr bb \<Rightarrow>
         (case subslice_from p (wrap_int (offset + l)) of
            Inl e \<Rightarrow> Inl e
          | Inr crcb \<Rightarrow>
             (case Uint32 crcb of
                Inl e \<Rightarrow> Inl e
              | Inr expCRC \<Rightarrow>
                 if expCRC \<noteq> crc32c bb then read_blocks p n d5 blks cbs
                 else (case db_e d5 of
                     Some e \<Rightarrow> Inl (Wrap e ''decoding block meta'')
                   | None \<Rightarrow>
                       read_blocks p n d5
                         (blks @ [\<lparr>blk_b = bb, blk_numEntries = numEntries, blk_mint = mint,
                                   blk_maxt = maxt, blk_offset = offset,
                                   blk_uncompressedSize = 0\<rparr>])
                         (cbs + int (length bb))))))"

text \<open>
  \<^verbatim>\<open>NewByteChunk\<close>. \<^verbatim>\<open>make([]block, 0, num)\<close> panics on a negative capacity (the
  limit the allocator puts on a large one is not modelled).
\<close>

definition NewByteChunk :: "bytes \<Rightarrow> int \<Rightarrow> int \<Rightarrow> error + MemChunk" where
  "NewByteChunk p bsz tsz =
     (case db_be32 \<lparr>db_b = p, db_e = None\<rparr> of (m, d0) \<Rightarrow>
      case db_byte d0 of (version, d1) \<Rightarrow>
      case db_e d1 of
        Some e \<Rightarrow> Inl (Wrap e ''verifying header'')
      | None \<Rightarrow>
        if m \<noteq> magicNumber then Inl (ErrInvalidMagic m)
        else
          (case (if version = chunkFormatV1 then Inr EncGZIP
                 else if version = chunkFormatV2 then
                   (case db_byte d1 of (enc, d2) \<Rightarrow>
                      (case db_e d2 of
                         Some e \<Rightarrow> Inl (Wrap e ''verifying encoding'')
                       | None \<Rightarrow> Inr enc))
                 else Inl (ErrInvalidVersion version)) of
             Inl e \<Rightarrow> Inl e
           | Inr enc \<Rightarrow>
              (case subslice_from p (int (length p) - 8) of
                 Inl e \<Rightarrow> Inl e
               | Inr tl8 \<Rightarrow>
                (case Uint64 tl8 of
                   Inl e \<Rightarrow> Inl e
                 | Inr metasOffset \<Rightarrow>
                  (case subslice p (uint metasOffset) (int (length p) - (8 + 4)) of
                     Inl e \<Rightarrow> Inl e
                   | Inr mb \<Rightarrow>
                    (case subslice_from p (int (length p) - (8 + 4)) of
                       Inl e \<Rightarrow> Inl e
                     | Inr tl12 \<Rightarrow>
                      (case Uint32 tl12 of
                         Inl e \<Rightarrow> Inl e
                       | Inr expCRC \<Rightarrow>
                          if expCRC \<noteq> db_crc32 \<lparr>db_b = mb, db_e = None\<rparr> then Inl ErrInvalidChecksum
                          else
                            (case db_uvarint \<lparr>db_b = mb, db_e = None\<rparr> of (num, d) \<Rightarrow>
                               if num < 0 then Inl RuntimePanic
                               else
                                 (case read_blocks p (nat num) d [] 0 of
                                    Inl e \<Rightarrow> Inl e
                                  | Inr (blks, cbs) \<Rightarrow>
                                      Inr \<lparr>blockSize = bsz, targetSize = tsz, blocks = blks,
                                           cutBlockSize = cbs, head = empty_head,
                                           format = version, encoding = enc\<rparr>)))))))))"


subsection \<open>The buffered block iterator\<close>

text \<open>
  \<^verbatim>\<open>bufio.Reader.ReadByte\<close>, \<^verbatim>\<open>binary.ReadUvarint\<close> and \<^verbatim>\<open>binary.ReadVarint\<close> on a
  stream. \<^verbatim>\<open>ReadUvarint\<close> reads at most \<open>MaxVarintLen64\<close> bytes and turns an end of
  stream after the first byte into \<open>ErrUnexpectedEOF\<close>; on an error it returns the
  value accumulated so far.
\<close>

fun ReadUvarint_loop ::
  "nat \<Rightarrow> nat \<Rightarrow> 64 word \<Rightarrow> error \<Rightarrow> bytes \<Rightarrow> (64 word \<times> error option) \<times> bytes" where
  "ReadUvarint_loop i sh x eof [] =
     (if i < MaxVarintLen64
      then ((x, Some (if 0 < i \<and> eof = ErrEOF then ErrUnexpectedEOF else eof)), [])
      else ((x, Some ErrOverflow), []))"
| "ReadUvarint_loop i sh x eof (c # cs) =
     (if i < MaxVarintLen64 then
        (if c < 0x80 then
           (if i = MaxVarintLen64 - 1 \<and> 1 < c then ((x, Some ErrOverflow), cs)
            else ((x OR push_bit sh (ucast c), None), cs))
         else ReadUvarint_loop (i + 1) (sh + 7) (x OR push_bit sh (ucast (c AND 0x7f))) eof cs)
      else ((x, Some ErrOverflow), c # cs))"

definition ReadUvarint :: "stream \<Rightarrow> (64 word \<times> error option) \<times> stream" where
  "ReadUvarint st =
     (case ReadUvarint_loop 0 0 0 (ending st) (pending st) of
        (r, rest) \<Rightarrow> (r, st\<lparr>pending := rest\<rparr>))"

definition ReadVarint :: "stream \<Rightarrow> (64 word \<times> error option) \<times> stream" where
  "ReadVarint st = (case ReadUvarint st of ((ux, e), st') \<Rightarrow> ((unzigzag ux, e), st'))"

text \<open>
  \<^verbatim>\<open>bufio.Reader.Read\<close> into a slice of length \<open>k\<close>: the bytes read, the error and
  the stream. A read returns every requested byte that is pending (a
  \<^verbatim>\<open>bufio.Reader\<close> may return fewer, and \<^verbatim>\<open>moveNext\<close> then reads again); at the end
  of the stream it reads nothing and returns the stream's error.
\<close>

definition Read :: "stream \<Rightarrow> int \<Rightarrow> bytes \<times> error option \<times> stream" where
  "Read st k =
     (if k = 0 then ([], None, st)
      else if pending st = [] then ([], Some (ending st), st)
      else (take (nat k) (pending st), None, st\<lparr>pending := drop (nat k) (pending st)\<rparr>))"

text \<open>
  The iterator. \<open>it_reader\<close> stands for \<^verbatim>\<open>si.reader\<close> and \<^verbatim>\<open>si.bufReader\<close>, which are
  set and cleared together (\<open>None\<close> is \<^verbatim>\<open>nil\<close>); \<open>it_pool\<close> is the encoding of the
  reader pool; \<open>it_buf\<close> is the capacity of \<^verbatim>\<open>si.buf\<close> (\<open>None\<close> is \<^verbatim>\<open>nil\<close>). The
  statistics counters, \<^verbatim>\<open>decBuf\<close> and the labels are left out.
\<close>

record bufferedIterator =
  it_origBytes :: bytes
  it_reader :: "stream option"
  it_pool :: byte
  it_err :: "error option"
  it_buf :: "int option"
  it_currLine :: bytes
  it_currTs :: "64 word"
  it_closed :: bool

definition newBufferedIterator :: "byte \<Rightarrow> bytes \<Rightarrow> bufferedIterator" where
  "newBufferedIterator enc p =
     \<lparr>it_origBytes = p, it_reader = None, it_pool = enc, it_err = None, it_buf = None,
      it_currLine = [], it_currTs = 0, it_closed = False\<rparr>"

text \<open>
  The loop \<^verbatim>\<open>for n < lineSize\<close> of \<^verbatim>\<open>moveNext\<close>; \<open>got\<close> holds the \<open>n\<close> bytes read so
  far. An \<open>ErrEOF\<close> is not taken for an error, so the loop does not end on a stream
  that ends early: not returning is the value \<open>None\<close>.
\<close>

partial_function (option) read_rest ::
  "stream \<Rightarrow> int \<Rightarrow> bytes \<Rightarrow> ((error option \<times> bytes) \<times> stream) option" where
  "read_rest st lineSize got =
     (if int (length got) < lineSize then
        (case Read st (lineSize - int (length got)) of
           (r, e, st') \<Rightarrow>
             if e \<noteq> None \<and> e \<noteq> Some ErrEOF then Some ((e, got), st')
             else read_rest st' lineSize (got @ r))
      else Some ((None, got), st))"

text \<open>Getting the line buffer: the new \<^verbatim>\<open>si.buf\<close>, and the error when it is too small.\<close>

definition line_buffer :: "pools \<Rightarrow> int option \<Rightarrow> int \<Rightarrow> int \<times> error option" where
  "line_buffer P buf lineSize =
     (case buf of
        None \<Rightarrow>
          (let c = line_buffer_cap P lineSize
           in (c, if c < lineSize then Some (ErrNoLineBuffer lineSize c) else None))
      | Some c0 \<Rightarrow>
          if c0 < lineSize then
            (let c = line_buffer_cap P lineSize
             in (c, if c < lineSize then Some (ErrNoLineBuffer lineSize c) else None))
          else (c0, None))"

text \<open>
  \<^verbatim>\<open>moveNext\<close>: the timestamp, the line and \<^verbatim>\<open>ok\<close>, with the iterator. It panics on
  a \<^verbatim>\<open>nil\<close> reader and on a negative line size (\<^verbatim>\<open>si.buf[:lineSize]\<close>).
\<close>

definition moveNext ::
  "pools \<Rightarrow> bufferedIterator \<Rightarrow>
     (error + (64 word \<times> bytes \<times> bool) \<times> bufferedIterator) option" where
  "moveNext P it =
     (case it_reader it of
        None \<Rightarrow> Some (Inl RuntimePanic)
      | Some st \<Rightarrow>
         (case ReadVarint st of
            ((ts, Some e), st1) \<Rightarrow>
              Some (Inr ((0, [], False),
                it\<lparr>it_reader := Some st1,
                   it_err := (if e \<noteq> ErrEOF then Some e else it_err it)\<rparr>))
          | ((ts, None), st1) \<Rightarrow>
             (case ReadUvarint st1 of
                ((l, e2), st2) \<Rightarrow>
                  if e2 \<noteq> None \<and> e2 \<noteq> Some ErrEOF
                  then Some (Inr ((0, [], False), it\<lparr>it_reader := Some st2, it_err := e2\<rparr>))
                  else
                    (let lineSize = int_of_uint64 l in
                     if maxLineLength \<le> lineSize
                     then Some (Inr ((0, [], False),
                            it\<lparr>it_reader := Some st2, it_err := Some (ErrLineTooLong lineSize)\<rparr>))
                     else
                       (case line_buffer P (it_buf it) lineSize of
                          (c, Some e) \<Rightarrow>
                            Some (Inr ((0, [], False),
                              it\<lparr>it_reader := Some st2, it_buf := Some c, it_err := Some e\<rparr>))
                        | (c, None) \<Rightarrow>
                            if lineSize < 0 then Some (Inl RuntimePanic)
                            else
                              (case Read st2 lineSize of
                                 (r, e3, st3) \<Rightarrow>
                                   if e3 \<noteq> None \<and> e3 \<noteq> Some ErrEOF
                                   then Some (Inr ((0, [], False),
                                          it\<lparr>it_reader := Some st3, it_buf := Some c,
                                             it_err := e3\<rparr>))
                                   else
                                     (case read_rest st3 lineSize r of
                                        None \<Rightarrow> None
                                      | Some ((Some e, got), st4) \<Rightarrow>
                                          Some (Inr ((0, [], False),
                                            it\<lparr>it_reader := Some st4, it_buf := Some c,
                                               it_err := Some e\<rparr>))
                                      | Some ((None, got), st4) \<Rightarrow>
                                          Some (Inr ((ts, got, True),
                                            it\<lparr>it_reader := Some st4,
                                               it_buf := Some c\<rparr>)))))))))"

definition close :: "bufferedIterator \<Rightarrow> bufferedIterator" where
  "close it = it\<lparr>it_reader := None, it_buf := None, it_origBytes := []\<rparr>"

definition Close :: "bufferedIterator \<Rightarrow> error option \<times> bufferedIterator" where
  "Close it =
     (if \<not> it_closed it then (it_err it, close (it\<lparr>it_closed := True\<rparr>))
      else (it_err it, it))"

definition Error :: "bufferedIterator \<Rightarrow> error option" where
  "Error it = it_err it"

definition Next :: "pools \<Rightarrow> bufferedIterator \<Rightarrow> (error + bool \<times> bufferedIterator) option" where
  "Next P it =
     (case (if \<not> it_closed it \<and> it_reader it = None then
              (case decompress P (it_pool it) (it_origBytes it) of
                 Inl e \<Rightarrow> Inl RuntimePanic
               | Inr st \<Rightarrow> Inr (it\<lparr>it_reader := Some st\<rparr>))
            else Inr it) of
        Inl e \<Rightarrow> Some (Inl e)
      | Inr it1 \<Rightarrow>
         (case moveNext P it1 of
            None \<Rightarrow> None
          | Some (Inl e) \<Rightarrow> Some (Inl e)
          | Some (Inr ((ts, line, ok), it2)) \<Rightarrow>
              if \<not> ok then Some (Inr (False, snd (Close it2)))
              else Some (Inr (True, it2\<lparr>it_currTs := ts, it_currLine := line\<rparr>))))"

text \<open>
  The entries a consumer sees that calls \<^verbatim>\<open>Next\<close> until it returns \<^verbatim>\<open>false\<close>, with
  a pipeline that keeps every line as it is: the entries, and the iterator at the
  end.
\<close>

partial_function (option) drain ::
  "pools \<Rightarrow> bufferedIterator \<Rightarrow> entry list \<Rightarrow> (error + entry list \<times> bufferedIterator) option" where
  "drain P it acc =
     (case Next P it of
        None \<Rightarrow> None
      | Some (Inl e) \<Rightarrow> Some (Inl e)
      | Some (Inr (ok, it')) \<Rightarrow>
          if ok then drain P it' (acc @ [\<lparr>entry_t = it_currTs it', entry_s = it_currLine it'\<rparr>])
          else Some (Inr (acc, it')))"

text \<open>
  \<^verbatim>\<open>encBlock.Iterator\<close>, run to its end: a block without bytes has the no-op iterator.
  The result is the entries and \<^verbatim>\<open>Error()\<close>.
\<close>

definition block_entries ::
  "pools \<Rightarrow> byte \<Rightarrow> block \<Rightarrow> (error + entry list \<times> error option) option" where
  "block_entries P enc blk =
     (if length (blk_b blk) = 0 then Some (Inr ([], None))
      else (case drain P (newBufferedIterator enc (blk_b blk)) [] of
          None \<Rightarrow> None
        | Some (Inl e) \<Rightarrow> Some (Inl e)
        | Some (Inr (es, it)) \<Rightarrow> Some (Inr (es, Error it))))"

text \<open>
  Modelled from the spec: the iterators of pkg/iter are not among the sources. The
  non-overlapping iterator consumes the iterators of the blocks one after the other
  (section 4.G); the entries of a chunk are those of its blocks in chunk order, then
  those of the head, with the first error an iterator ended on.
\<close>

fun blocks_entries ::
  "pools \<Rightarrow> byte \<Rightarrow> block list \<Rightarrow> (error + entry list \<times> error option) option" where
  "blocks_entries P enc [] = Some (Inr ([], None))"
| "blocks_entries P enc (blk # rest) =
     (case block_entries P enc blk of
        None \<Rightarrow> None
      | Some (Inl e) \<Rightarrow> Some (Inl e)
      | Some (Inr (es, err)) \<Rightarrow>
         (case blocks_entries P enc rest of
            None \<Rightarrow> None
          | Some (Inl e) \<Rightarrow> Some (Inl e)
          | Some (Inr (es', err')) \<Rightarrow>
              Some (Inr (es @ es', case err of None \<Rightarrow> err' | Some e \<Rightarrow> Some e))))"

definition chunk_entries ::
  "pools \<Rightarrow> MemChunk \<Rightarrow> (error + entry list \<times> error option) option" where
  "chunk_entries P c =
     (case blocks_entries P (encoding c) (blocks c) of
        None \<Rightarrow> None
      | Some (Inl e) \<Rightarrow> Some (Inl e)
      | Some (Inr (es, err)) \<Rightarrow> Some (Inr (es @ hb_entries (head c), err)))"

subsection \<open>Sequences of operations\<close>

text \<open>Appending a sequence of entries; the first error stops it.\<close>

fun append_all :: "pools \<Rightarrow> MemChunk \<Rightarrow> entry list \<Rightarrow> error option \<times> MemChunk" where
  "append_all P c [] = (None, c)"
| "append_all P c (e # es) =
     (case Append P c e of
        (Some err, c') \<Rightarrow> (Some err, c')
      | (None, c') \<Rightarrow> append_all P c' es)"

text \<open>
  Building a chunk from entries and serialising it, and the entries read back from the
  parsed bytes.
\<close>

definition build_bytes :: "pools \<Rightarrow> byte \<Rightarrow> int \<Rightarrow> int \<Rightarrow> entry list \<Rightarrow> error + bytes" where
  "build_bytes P enc bsz tsz es =
     (case append_all P (NewMemChunk enc bsz tsz) es of
        (Some e, c) \<Rightarrow> Inl e
      | (None, c) \<Rightarrow> fst (Bytes P c))"

definition roundtrip ::
  "pools \<Rightarrow> byte \<Rightarrow> int \<Rightarrow> int \<Rightarrow> entry list \<Rightarrow> (error + entry list \<times> error option) option" where
  "roundtrip P enc bsz tsz es =
     (case build_bytes P enc bsz tsz es of
        Inl e \<Rightarrow> Some (Inl e)
      | Inr p \<Rightarrow>
         (case NewByteChunk p bsz tsz of
            Inl e \<Rightarrow> Some (Inl e)
          | Inr c \<Rightarrow> chunk_entries P c))"

text \<open>Any sequence of appends and cuts; an operation that fails leaves the state it reached.\<close>

datatype chunk_op = DoAppend entry | DoCut

definition apply_op :: "pools \<Rightarrow> MemChunk \<Rightarrow> chunk_op \<Rightarrow> MemChunk" where
  "apply_op P c x = (case x of DoAppend e \<Rightarrow> snd (Append P c e) | DoCut \<Rightarrow> snd (cut P c))"

definition run_ops :: "pools \<Rightarrow> MemChunk \<Rightarrow> chunk_op list \<Rightarrow> MemChunk" where
  "run_ops P c xs = foldl (apply_op P) c xs"


subsection \<open>Concrete pools and entries\<close>

text \<open>
  The pools of the encoding without compression: the writer copies its input, the
  reader delivers the block's bytes, and the buffer pool returns a buffer of the
  size asked for (of 512 bytes at least).
\<close>


definition none_pools :: pools where
  "none_pools =
     \<lparr>compress = (\<lambda>enc p. Written p),
      decompress = (\<lambda>enc p. Inr \<lparr>pending = p, ending = ErrEOF\<rparr>),
      line_buffer_cap = (\<lambda>n. max n 512)\<rparr>"

text \<open>Entries for the concrete scenarios.\<close>

definition entry_a :: entry where
  "entry_a = \<lparr>entry_t = 10, entry_s = [0x78]\<rparr>"

definition entry_b :: entry where
  "entry_b = \<lparr>entry_t = 5, entry_s = [0x79]\<rparr>"


definition entries_s2 :: "entry list" where
  "entries_s2 =
     [\<lparr>entry_t = 1, entry_s = [0x61, 0x62]\<rparr>, \<lparr>entry_t = 2, entry_s = [0x63, 0x64]\<rparr>,
      \<lparr>entry_t = 3, entry_s = [0x65, 0x66]\<rparr>]"

definition chunk_neg :: MemChunk where
  "chunk_neg = snd (Append none_pools (NewMemChunk 0 256 (- 1)) entry_a)"

definition chunk_s2 :: MemChunk where
  "chunk_s2 = (NewMemChunk 0 4 0)
     \<lparr>head := \<lparr>hb_entries = take 2 entries_s2, hb_size = 4, hb_mint = 1, hb_maxt = 2\<rparr>\<rparr>"

definition ops_s2 :: "chunk_op list" where
  "ops_s2 =
     [DoAppend \<lparr>entry_t = 1, entry_s = [0x61, 0x62]\<rparr>,
      DoAppend \<lparr>entry_t = 2, entry_s = [0x63, 0x64]\<rparr>,
      DoAppend \<lparr>entry_t = 3, entry_s = [0x65, 0x66]\<rparr>,
      DoCut,
      DoAppend \<lparr>entry_t = 2, entry_s = [0x67]\<rparr>,
      DoAppend \<lparr>entry_t = 3, entry_s = [0x68]\<rparr>]"

text \<open>The invariant of the block list and the head.\<close>

definition ordered :: "MemChunk \<Rightarrow> bool" where
  "ordered c =
     (successively (\<lambda>x y. blk_maxt x \<le>s blk_mint y) (blocks c) \<and>
      (if isEmpty (head c) then hb_mint (head c) = 0
       else hb_mint (head c) \<le>s hb_maxt (head c) \<and>
         (blocks c = [] \<or> blk_maxt (last (blocks c)) \<le>s hb_mint (head c))))"

text \<open>Malformed inputs: a header with nothing behind it, a block whose line length is
  \<open>2^30\<close>, a block that ends inside a line, and the iterator after the line that is too long.\<close>

definition truncated_header :: bytes where
  "truncated_header = [0x01, 0x2E, 0xE5, 0x6A, 0x01]"

definition long_line_block :: bytes where
  "long_line_block = [0x00, 0x80, 0x80, 0x80, 0x80, 0x04]"

definition short_line_block :: bytes where
  "short_line_block = [0x00, 0x05, 0x61]"

definition it_failed :: bufferedIterator where
  "it_failed =
     \<lparr>it_origBytes = [], it_reader = None, it_pool = 0,
      it_err = Some (ErrLineTooLong 1073741824), it_buf = None, it_currLine = [],
      it_currTs = 0, it_closed = True\<rparr>"

subsection \<open>The wire format\<close>

text \<open>
  The metadata section of the container (section 6.1 of the specification): for each
  block the entry count, \<open>mint\<close>, \<open>maxt\<close>, the offset of the payload in the chunk and
  the payload's length. \<open>put_metas\<close> is the section without its checksum.
\<close>

record blockMeta =
  m_numEntries :: int
  m_mint :: "64 word"
  m_maxt :: "64 word"
  m_offset :: int
  m_len :: int

definition put_meta :: "blockMeta \<Rightarrow> bytes" where
  "put_meta m =
     PutUvarint (uint64_of_int (m_numEntries m)) @ PutVarint (m_mint m) @ PutVarint (m_maxt m) @
     PutUvarint (uint64_of_int (m_offset m)) @ PutUvarint (uint64_of_int (m_len m))"

definition put_metas :: "blockMeta list \<Rightarrow> bytes" where
  "put_metas ms = PutUvarint (uint64_of_int (int (length ms))) @ concat (map put_meta ms)"

definition meta_of :: "block \<Rightarrow> blockMeta" where
  "meta_of blk =
     \<lparr>m_numEntries = blk_numEntries blk, m_mint = blk_mint blk, m_maxt = blk_maxt blk,
      m_offset = blk_offset blk, m_len = int (length (blk_b blk))\<rparr>"

text \<open>
  What a block meta points at in an input \<open>p\<close>: the payload, the checksum stored
  behind it, whether the two agree, and the block that \<^verbatim>\<open>NewByteChunk\<close> makes of them.
  \<open>meta_in_bounds\<close> says that the payload and its checksum lie inside \<open>p\<close>.
\<close>

definition meta_in_bounds :: "bytes \<Rightarrow> blockMeta \<Rightarrow> bool" where
  "meta_in_bounds p m =
     (0 \<le> m_offset m \<and> 0 \<le> m_len m \<and> m_offset m + m_len m + 4 \<le> int (length p))"

definition payload :: "bytes \<Rightarrow> blockMeta \<Rightarrow> bytes" where
  "payload p m = take (nat (m_len m)) (drop (nat (m_offset m)) p)"

definition stored_crc :: "bytes \<Rightarrow> blockMeta \<Rightarrow> 32 word" where
  "stored_crc p m = be32 (drop (nat (m_offset m + m_len m)) p)"

definition crc_ok :: "bytes \<Rightarrow> blockMeta \<Rightarrow> bool" where
  "crc_ok p m = (stored_crc p m = crc32c (payload p m))"

definition block_of :: "bytes \<Rightarrow> blockMeta \<Rightarrow> block" where
  "block_of p m =
     \<lparr>blk_b = payload p m, blk_numEntries = wrap_int (m_numEntries m), blk_mint = m_mint m,
      blk_maxt = m_maxt m, blk_offset = m_offset m, blk_uncompressedSize = 0\<rparr>"

text \<open>The encoding a parsed chunk has: format 1 is always gzip.\<close>

definition parsed_encoding :: "byte \<Rightarrow> byte \<Rightarrow> byte" where
  "parsed_encoding fmt enc = (if fmt = chunkFormatV1 then EncGZIP else enc)"

text \<open>
  A serialised chunk of two blocks (scenario S4): the payloads with their checksums,
  the same with one byte of the first payload changed, the metas, and the whole
  input with a damaged payload and with a damaged metadata section.
\<close>

definition body_s4 :: bytes where
  "body_s4 =
     [2, 2, 97, 98, 4, 2, 99, 100, 208, 39, 221, 150,
      6, 2, 101, 102, 8, 2, 103, 104, 45, 37, 42, 37]"

definition body_s4_damaged :: bytes where
  "body_s4_damaged =
     [2, 2, 96, 98, 4, 2, 99, 100, 208, 39, 221, 150,
      6, 2, 101, 102, 8, 2, 103, 104, 45, 37, 42, 37]"

definition metas_s4 :: "blockMeta list" where
  "metas_s4 =
     [\<lparr>m_numEntries = 2, m_mint = 1, m_maxt = 2, m_offset = 6, m_len = 8\<rparr>,
      \<lparr>m_numEntries = 2, m_mint = 3, m_maxt = 4, m_offset = 18, m_len = 8\<rparr>]"

definition chunk_s4_damaged_block :: bytes where
  "chunk_s4_damaged_block =
     [1, 46, 229, 106, 2, 0] @ body_s4_damaged @
     [2, 2, 2, 4, 6, 8, 2, 6, 8, 18, 8, 213, 157, 24, 45, 0, 0, 0, 0, 0, 0, 0, 30]"

definition chunk_s4_damaged_meta :: bytes where
  "chunk_s4_damaged_meta =
     [1, 46, 229, 106, 2, 0] @ body_s4 @
     [2, 2, 2, 4, 6, 8, 2, 6, 8, 19, 8, 213, 157, 24, 45, 0, 0, 0, 0, 0, 0, 0, 30]"

text \<open>The payloads of a block list as \<^verbatim>\<open>Bytes\<close> writes them, each with its checksum.\<close>

definition framed :: "block list \<Rightarrow> bytes" where
  "framed blks = concat (map (\<lambda>blk. blk_b blk @ PutUint32 (crc32c (blk_b blk))) blks)"

subsection \<open>Supported encodings\<close>

text \<open>
  What the round trip needs of the compression adapter for an encoding: writing
  succeeds, the reader delivers exactly what the writer was given and then ends with
  \<open>ErrEOF\<close>, the output for a non-empty input is not empty, and the buffer pool
  returns a buffer of at least the size asked for.
\<close>

definition codec_ok :: "pools \<Rightarrow> byte \<Rightarrow> bool" where
  "codec_ok P enc =
     ((\<forall>d. \<exists>out. compress P enc d = Written out \<and> (d \<noteq> [] \<longrightarrow> out \<noteq> []) \<and>
          decompress P enc out = Inr \<lparr>pending = d, ending = ErrEOF\<rparr>) \<and>
      (\<forall>n. n \<le> line_buffer_cap P n))"

definition short_lines :: "entry list \<Rightarrow> bool" where
  "short_lines es = list_all (\<lambda>e. int (length (entry_s e)) < maxLineLength) es"

definition in_order :: "entry list \<Rightarrow> bool" where
  "in_order es = sorted_wrt (\<lambda>x y. entry_t x \<le>s entry_t y) es"

text \<open>
  The state of a chunk that was built from the entries \<open>es\<close>: its blocks iterate,
  without error, to a prefix of \<open>es\<close> that the head's entries complete, and the
  last timestamp is the head's \<open>maxt\<close>, or the last block's when the head is empty.
\<close>

definition built :: "pools \<Rightarrow> byte \<Rightarrow> MemChunk \<Rightarrow> entry list \<Rightarrow> bool" where
  "built P enc c es =
     (encoding c = enc \<and> format c = chunkFormatV2 \<and>
      (\<exists>es1. blocks_entries P enc (blocks c) = Some (Inr (es1, None)) \<and>
         es = es1 @ hb_entries (head c)) \<and>
      (if hb_entries (head c) \<noteq> [] then hb_maxt (head c) = entry_t (last es)
       else if blocks c \<noteq> [] then es \<noteq> [] \<and> blk_maxt (last (blocks c)) = entry_t (last es)
       else es = []))"

text \<open>The entries of scenario S1, and an entry whose line has \<open>2^30\<close> bytes, with the
  chunk that appending it to a new chunk gives.\<close>

definition entries_s1 :: "entry list" where
  "entries_s1 =
     [\<lparr>entry_t = 1000, entry_s = [0x61]\<rparr>, \<lparr>entry_t = 2000, entry_s = [0x62, 0x62]\<rparr>,
      \<lparr>entry_t = 3000, entry_s = [0x63, 0x63, 0x63]\<rparr>]"

definition long_entry :: entry where
  "long_entry = \<lparr>entry_t = 0, entry_s = replicate 1073741824 0x61\<rparr>"

definition chunk_long :: MemChunk where
  "chunk_long =
     \<lparr>blockSize = 256, targetSize = 0,
      blocks = [\<lparr>blk_b = serialise_entry long_entry, blk_numEntries = 1, blk_mint = 0,
                 blk_maxt = 0, blk_offset = 0, blk_uncompressedSize = 1073741824\<rparr>],
      cutBlockSize = int (length (serialise_entry long_entry)),
      head = \<lparr>hb_entries = [], hb_size = 0, hb_mint = 0, hb_maxt = 0\<rparr>,
      format = chunkFormatV2, encoding = 0\<rparr>"

section \<open>Properties\<close>

subsection \<open>Space and out-of-order appends\<close>

text \<open>
  C7. \<^verbatim>\<open>SpaceFor(entry)\<close> is \<open>cutBlockSize + head.size + len(entry.Line) < targetSize\<close>
  when \<open>targetSize > 0\<close>, and \<open>len(blocks) < 10\<close> otherwise.
\<close>

theorem SpaceFor_spec:
  "SpaceFor c e =
     (if 0 < targetSize c
      then cutBlockSize c + hb_size (head c) + int (length (entry_s e)) < targetSize c
      else length (blocks c) < 10)"
  by (simp add: SpaceFor_def blocksPerChunk_def Let_def add.assoc)

theorem SpaceFor_spec_witness:
  "SpaceFor (NewMemChunk 0 256 2) entry_a \<and> \<not> SpaceFor (NewMemChunk 0 256 1) entry_a \<and>
   SpaceFor (NewMemChunk 0 256 0) entry_a"
  using SpaceFor_spec [of "NewMemChunk 0 256 2" entry_a]
    SpaceFor_spec [of "NewMemChunk 0 256 1" entry_a]
    SpaceFor_spec [of "NewMemChunk 0 256 0" entry_a]
  by (simp add: NewMemChunk_def empty_head_def entry_a_def)

lemma cut_not_OutOfOrder: "fst (cut P c) \<noteq> Some ErrOutOfOrder"
  by (simp add: cut_def serialise_def split: written.splits)

text \<open>
  C2. \<^verbatim>\<open>Append\<close> returns \<open>ErrOutOfOrder\<close> if and only if the head is empty, there are
  blocks and the entry's timestamp is below the last block's \<open>maxt\<close>, or the head is
  not empty and the timestamp is below the head's \<open>maxt\<close>; and then the chunk is
  unchanged.
\<close>

theorem Append_OutOfOrder:
  "(fst (Append P c e) = Some ErrOutOfOrder \<longleftrightarrow>
      (isEmpty (head c) \<and> blocks c \<noteq> [] \<and> entry_t e <s blk_maxt (last (blocks c))) \<or>
      (\<not> isEmpty (head c) \<and> entry_t e <s hb_maxt (head c))) \<and>
   (fst (Append P c e) = Some ErrOutOfOrder \<longrightarrow> snd (Append P c e) = c)"
proof -
  let ?hb = "snd (hb_append (head c) (entry_t e) (entry_s e))"
  have cut: "fst (cut P (c\<lparr>head := ?hb\<rparr>)) \<noteq> Some ErrOutOfOrder"
    by (rule cut_not_OutOfOrder)
  show ?thesis
    using cut by (auto simp: Append_def hb_append_def split: if_splits)
qed

theorem Append_OutOfOrder_witness:
  "fst (Append none_pools (snd (Append none_pools (NewMemChunk 0 256 0) entry_a)) entry_b)
     = Some ErrOutOfOrder \<and>
   snd (Append none_pools (snd (Append none_pools (NewMemChunk 0 256 0) entry_a)) entry_b)
     = snd (Append none_pools (NewMemChunk 0 256 0) entry_a)"
proof -
  let ?c = "snd (Append none_pools (NewMemChunk 0 256 0) entry_a)"
  have c: "?c = (NewMemChunk 0 256 0)\<lparr>head := \<lparr>hb_entries = [entry_a], hb_size = 1, hb_mint = 10, hb_maxt = 10\<rparr>\<rparr>"
    by (simp add: Append_def hb_append_def NewMemChunk_def empty_head_def isEmpty_def entry_a_def)
  have "\<not> isEmpty (head ?c) \<and> entry_t entry_b <s hb_maxt (head ?c)"
    unfolding c by (simp add: isEmpty_def entry_b_def word_sless_alt)
  then show ?thesis
    using Append_OutOfOrder [of none_pools ?c entry_b] by blast
qed

subsection \<open>Cutting\<close>

lemma cut_empty: "isEmpty (head c) \<Longrightarrow> cut P c = (None, c)"
  by (simp add: cut_def)

lemma cut_nonempty:
  "\<not> isEmpty (head c) \<Longrightarrow> serialise P (encoding c) (head c) = Inr out \<Longrightarrow>
   cut P c = (None,
     c\<lparr>blocks := blocks c @
          [\<lparr>blk_b = out, blk_numEntries = int (length (hb_entries (head c))),
            blk_mint = hb_mint (head c), blk_maxt = hb_maxt (head c), blk_offset = 0,
            blk_uncompressedSize = hb_size (head c)\<rparr>],
        cutBlockSize := cutBlockSize c + int (length out),
        head := (head c)\<lparr>hb_entries := [], hb_mint := 0, hb_size := 0\<rparr>\<rparr>)"
  by (simp add: cut_def)

lemma Append_in_order:
  assumes "fst (hb_append (head c) (entry_t e) (entry_s e)) = None"
    and "\<not> (isEmpty (head c) \<and> 0 < length (blocks c) \<and> entry_t e <s blk_maxt (last (blocks c)))"
  shows "Append P c e =
     (if blockSize c \<le> hb_size (snd (hb_append (head c) (entry_t e) (entry_s e)))
      then cut P (c\<lparr>head := snd (hb_append (head c) (entry_t e) (entry_s e))\<rparr>)
      else (None, c\<lparr>head := snd (hb_append (head c) (entry_t e) (entry_s e))\<rparr>))"
proof (cases "hb_append (head c) (entry_t e) (entry_s e)")
  case (Pair r hb)
  with assms(1) have "r = None"
    by simp
  with Pair assms(2) show ?thesis
    unfolding Append_def by auto
qed

text \<open>
  C6. \<^verbatim>\<open>cut\<close> does nothing when the head is empty. Otherwise, when the head
  serialises to \<open>out\<close>, it appends exactly one block that carries \<open>out\<close>, the head's
  entry count, \<open>mint\<close>, \<open>maxt\<close> and uncompressed size, adds the length of \<open>out\<close> to
  \<open>cutBlockSize\<close> and leaves the head empty. \<^verbatim>\<open>Append\<close> cuts whenever the head's
  size has reached \<open>blockSize\<close> after the entry was appended to the head.
\<close>

theorem cut_spec:
  "(isEmpty (head c) \<longrightarrow> cut P c = (None, c)) \<and>
   (\<not> isEmpty (head c) \<and> serialise P (encoding c) (head c) = Inr out \<longrightarrow>
      cut P c = (None,
        c\<lparr>blocks := blocks c @
             [\<lparr>blk_b = out, blk_numEntries = int (length (hb_entries (head c))),
               blk_mint = hb_mint (head c), blk_maxt = hb_maxt (head c), blk_offset = 0,
               blk_uncompressedSize = hb_size (head c)\<rparr>],
           cutBlockSize := cutBlockSize c + int (length out),
           head := (head c)\<lparr>hb_entries := [], hb_mint := 0, hb_size := 0\<rparr>\<rparr>) \<and>
      isEmpty (head (snd (cut P c)))) \<and>
   (fst (hb_append (head c) (entry_t e) (entry_s e)) = None \<and>
    \<not> (isEmpty (head c) \<and> 0 < length (blocks c) \<and> entry_t e <s blk_maxt (last (blocks c))) \<longrightarrow>
      Append P c e =
        (if blockSize c \<le> hb_size (snd (hb_append (head c) (entry_t e) (entry_s e)))
         then cut P (c\<lparr>head := snd (hb_append (head c) (entry_t e) (entry_s e))\<rparr>)
         else (None, c\<lparr>head := snd (hb_append (head c) (entry_t e) (entry_s e))\<rparr>)))"
proof (intro conjI impI)
  assume "isEmpty (head c)"
  then show "cut P c = (None, c)"
    by (rule cut_empty)
next
  assume a: "\<not> isEmpty (head c) \<and> serialise P (encoding c) (head c) = Inr out"
  then show "cut P c = (None,
        c\<lparr>blocks := blocks c @
             [\<lparr>blk_b = out, blk_numEntries = int (length (hb_entries (head c))),
               blk_mint = hb_mint (head c), blk_maxt = hb_maxt (head c), blk_offset = 0,
               blk_uncompressedSize = hb_size (head c)\<rparr>],
           cutBlockSize := cutBlockSize c + int (length out),
           head := (head c)\<lparr>hb_entries := [], hb_mint := 0, hb_size := 0\<rparr>\<rparr>)"
    by (simp add: cut_nonempty)
  from a show "isEmpty (head (snd (cut P c)))"
    by (simp add: cut_nonempty) (simp add: isEmpty_def)
next
  assume "fst (hb_append (head c) (entry_t e) (entry_s e)) = None \<and>
    \<not> (isEmpty (head c) \<and> 0 < length (blocks c) \<and> entry_t e <s blk_maxt (last (blocks c)))"
  then show "Append P c e =
        (if blockSize c \<le> hb_size (snd (hb_append (head c) (entry_t e) (entry_s e)))
         then cut P (c\<lparr>head := snd (hb_append (head c) (entry_t e) (entry_s e))\<rparr>)
         else (None, c\<lparr>head := snd (hb_append (head c) (entry_t e) (entry_s e))\<rparr>))"
    using Append_in_order by blast
qed

lemma serialise_none_pools:
  "serialise none_pools enc hb = Inr (concat (map serialise_entry (hb_entries hb)))"
  by (simp add: serialise_def none_pools_def)

theorem cut_spec_witness:
  "\<not> isEmpty (head chunk_s2) \<and>
   serialise none_pools (encoding chunk_s2) (head chunk_s2) =
     Inr (concat (map serialise_entry (take 2 entries_s2))) \<and>
   length (blocks (snd (cut none_pools chunk_s2))) = 1 \<and>
   blk_numEntries (last (blocks (snd (cut none_pools chunk_s2)))) = 2 \<and>
   isEmpty (head (snd (cut none_pools chunk_s2))) \<and>
   cut none_pools (NewMemChunk 0 4 0) = (None, NewMemChunk 0 4 0)"
proof -
  have 1: "\<not> isEmpty (head chunk_s2)"
    by (simp add: chunk_s2_def isEmpty_def entries_s2_def)
  have 2: "serialise none_pools (encoding chunk_s2) (head chunk_s2) =
     Inr (concat (map serialise_entry (take 2 entries_s2)))"
    by (simp add: serialise_none_pools chunk_s2_def)
  have 3: "isEmpty (head (NewMemChunk 0 4 0))"
    by (simp add: NewMemChunk_def empty_head_def isEmpty_def)
  let ?out = "concat (map serialise_entry (take 2 entries_s2))"
  from 1 2 have 4: "cut none_pools chunk_s2 = (None,
        chunk_s2\<lparr>blocks := blocks chunk_s2 @
             [\<lparr>blk_b = ?out, blk_numEntries = int (length (hb_entries (head chunk_s2))),
               blk_mint = hb_mint (head chunk_s2), blk_maxt = hb_maxt (head chunk_s2),
               blk_offset = 0, blk_uncompressedSize = hb_size (head chunk_s2)\<rparr>],
           cutBlockSize := cutBlockSize chunk_s2 + int (length ?out),
           head := (head chunk_s2)\<lparr>hb_entries := [], hb_mint := 0, hb_size := 0\<rparr>\<rparr>)"
    and 5: "isEmpty (head (snd (cut none_pools chunk_s2)))"
    using cut_spec [of chunk_s2 none_pools ?out] by blast+
  have 6: "blocks chunk_s2 = []" "length (hb_entries (head chunk_s2)) = 2"
    by (simp_all add: chunk_s2_def NewMemChunk_def entries_s2_def)
  have 7: "length (blocks (snd (cut none_pools chunk_s2))) = 1"
    "blk_numEntries (last (blocks (snd (cut none_pools chunk_s2)))) = 2"
    unfolding 4 by (simp_all add: 6)
  from 3 have 8: "cut none_pools (NewMemChunk 0 4 0) = (None, NewMemChunk 0 4 0)"
    using cut_spec [of "NewMemChunk 0 4 0" none_pools] by blast
  from 1 2 5 7 8 show ?thesis
    by blast
qed

subsection \<open>Utilization\<close>

text \<open>
  Where the target size is not negative and the product does not wrap,
  \<^verbatim>\<open>Utilization\<close> is the quotient the specification gives; \<^verbatim>\<open>CompressedSize\<close> is
  \<open>cutBlockSize\<close>, plus the head's size when the head is not empty.
\<close>

lemma Utilization_nonnegative_target:
  assumes "0 \<le> targetSize c"
    and "- (2 ^ 63) \<le> 10 * blockSize c" and "10 * blockSize c < 2 ^ 63"
  shows "Utilization c =
     (if 0 < targetSize c then
        float64_div (float64_of_int (CompressedSize c)) (float64_of_int (targetSize c))
      else float64_div (float64_of_int (UncompressedSize c)) (float64_of_int (10 * blockSize c)))"
proof -
  from assms(2,3) have "signed_take_bit 63 (10 * blockSize c) = 10 * blockSize c"
    by (simp add: signed_take_bit_int_eq_self)
  then have "wrap_int (10 * blockSize c) = 10 * blockSize c"
    unfolding wrap_int_def sint_sbintrunc' by simp
  with assms(1) show ?thesis
    by (simp add: Utilization_def blocksPerChunk_def Let_def)
qed

lemma CompressedSize_spec:
  "CompressedSize c =
     (if isEmpty (head c) then cutBlockSize c else cutBlockSize c + hb_size (head c))"
  by (simp add: CompressedSize_def)

lemma chunk_neg_eq:
  "chunk_neg = (NewMemChunk 0 256 (- 1))
     \<lparr>head := \<lparr>hb_entries = [entry_a], hb_size = 1, hb_mint = 10, hb_maxt = 10\<rparr>\<rparr>"
  by (simp add: chunk_neg_def Append_def hb_append_def NewMemChunk_def empty_head_def
      isEmpty_def entry_a_def)

text \<open>The two quotients of the example, \<open>1 / -1\<close> and \<open>1 / 2560\<close>, as \<^verbatim>\<open>float64\<close>.\<close>

lemma floor_rat_numeral: "\<lfloor>(numeral a :: rat) / numeral b\<rfloor> = numeral a div numeral b"
  using floor_divide_of_int_eq [of "numeral a" "numeral b", where ?'a = rat] by simp

lemma ilog2_one: "ilog2 1 = 0"
  by (simp add: ilog2_def compute_floorlog)

lemma round64_one: "round64 s 1 = Float s 1"
  by (simp add: round64_def ilog2_one round_even_def Let_def power_int_minus)

lemma float64_of_int_one: "float64_of_int 1 = Float False 1"
  by (simp add: float64_of_int_def round64_one)

lemma float64_of_int_minus_one: "float64_of_int (- 1) = Float True 1"
  by (simp add: float64_of_int_def round64_one)

lemma float64_minus_one:
  "float64_div (float64_of_int 1) (float64_of_int (- 1)) = Float True 1"
  by (simp add: float64_of_int_one float64_of_int_minus_one float64_div_def round64_one)

lemma ilog2_2560: "ilog2 2560 = 11"
  by (simp add: ilog2_def compute_floorlog)

lemma float64_of_int_2560: "float64_of_int 2560 = Float False 2560"
  by (simp add: float64_of_int_def round64_def ilog2_2560 round_even_def Let_def
      power_int_minus)

lemma quotient_of_inverse_2560: "quotient_of (1 / 2560) = (1, 2560)"
  by code_simp

lemma ilog2_inverse_2560: "ilog2 (1 / 2560) = - 12"
  by (simp add: ilog2_def quotient_of_inverse_2560 compute_floorlog power_int_minus)

lemma float64_one_by_2560:
  "float64_div (float64_of_int 1) (float64_of_int 2560) =
     Float False (3602879701896397 / 9223372036854775808)"
  by (simp add: float64_of_int_one float64_of_int_2560 float64_div_def round64_def
      ilog2_inverse_2560 round_even_def Let_def power_int_minus floor_rat_numeral)

text \<open>
  C8 fails on the code. The guard of \<^verbatim>\<open>Utilization\<close> is \<open>targetSize \<noteq> 0\<close>, not
  \<open>targetSize > 0\<close> as in \<^verbatim>\<open>SpaceFor\<close>: for a chunk with target size \<open>-1\<close>, block size 256
  and one entry of one byte in its head, \<^verbatim>\<open>Utilization\<close> is
  \<open>CompressedSize / targetSize = -1\<close>, and not \<open>UncompressedSize / (10 * blockSize)\<close>,
  which is \<open>1 / 2560\<close> rounded to a \<^verbatim>\<open>float64\<close>.
\<close>

theorem Utilization_negative_target:
  "targetSize chunk_neg = - 1 \<and>
   Utilization chunk_neg = Float True 1 \<and>
   float64_div (float64_of_int (UncompressedSize chunk_neg))
     (float64_of_int (wrap_int (blocksPerChunk * blockSize chunk_neg))) =
     Float False (3602879701896397 / 9223372036854775808)"
  by (simp add: chunk_neg_eq Utilization_def CompressedSize_def UncompressedSize_def
      NewMemChunk_def isEmpty_def blocksPerChunk_def wrap_int_def
      float64_minus_one float64_one_by_2560)

subsection \<open>The order of the blocks\<close>

lemma ordered_NewMemChunk: "ordered (NewMemChunk enc bsz tsz)"
  by (simp add: ordered_def NewMemChunk_def empty_head_def isEmpty_def)

lemma successively_snoc:
  "successively R (xs @ [x]) \<longleftrightarrow> successively R xs \<and> (xs = [] \<or> R (last xs) x)"
  by (cases xs rule: rev_cases) (auto simp: successively_append_iff)

lemma ordered_cut:
  assumes "ordered c"
  shows "ordered (snd (cut P c))"
proof (cases "isEmpty (head c)")
  case True
  with assms show ?thesis
    by (simp add: cut_def)
next
  case False
  show ?thesis
  proof (cases "serialise P (encoding c) (head c)")
    case (Inl e)
    with False assms show ?thesis
      by (simp add: cut_def)
  next
    case (Inr out)
    with False assms show ?thesis
      by (auto simp: cut_def ordered_def isEmpty_def successively_snoc)
  qed
qed

lemma ordered_head_append:
  assumes "ordered c"
    and "\<not> (isEmpty (head c) \<and> 0 < length (blocks c) \<and> entry_t e <s blk_maxt (last (blocks c)))"
    and "hb_append (head c) (entry_t e) (entry_s e) = (None, hb)"
  shows "ordered (c\<lparr>head := hb\<rparr>)"
proof (cases "isEmpty (head c)")
  case True
  with assms show ?thesis
    by (auto simp: ordered_def hb_append_def isEmpty_def word_sle_eq word_sless_alt)
next
  case False
  with assms(3) have le: "hb_maxt (head c) \<le>s entry_t e"
    by (auto simp: hb_append_def word_sle_eq word_sless_alt split: if_splits)
  from False assms(1) have m: "hb_mint (head c) \<le>s hb_maxt (head c)"
    and b: "blocks c = [] \<or> blk_maxt (last (blocks c)) \<le>s hb_mint (head c)"
    and s: "successively (\<lambda>x y. blk_maxt x \<le>s blk_mint y) (blocks c)"
    by (simp_all add: ordered_def)
  from False assms(3) have hb: "hb = (head c)
      \<lparr>hb_entries := hb_entries (head c) @ [\<lparr>entry_t = entry_t e, entry_s = entry_s e\<rparr>],
       hb_mint := (if hb_mint (head c) = 0 \<or> entry_t e <s hb_mint (head c) then entry_t e
                   else hb_mint (head c)),
       hb_maxt := entry_t e,
       hb_size := hb_size (head c) + int (length (entry_s e))\<rparr>"
    by (auto simp: hb_append_def split: if_splits)
  show ?thesis
    using le m b s unfolding ordered_def hb
    by (auto simp: isEmpty_def word_sle_eq word_sless_alt)
qed

lemma ordered_Append:
  assumes "ordered c"
  shows "ordered (snd (Append P c e))"
proof (cases "isEmpty (head c) \<and> 0 < length (blocks c) \<and> entry_t e <s blk_maxt (last (blocks c))")
  case True
  with assms show ?thesis
    by (simp add: Append_def)
next
  case False
  show ?thesis
  proof (cases "hb_append (head c) (entry_t e) (entry_s e)")
    case (Pair r hb)
    show ?thesis
    proof (cases r)
      case None
      with Pair False assms have "ordered (c\<lparr>head := hb\<rparr>)"
        using ordered_head_append by blast
      then have "ordered (snd (cut P (c\<lparr>head := hb\<rparr>)))"
        by (rule ordered_cut)
      with \<open>ordered (c\<lparr>head := hb\<rparr>)\<close> Pair None False show ?thesis
        by (auto simp: Append_def)
    next
      case (Some err)
      with Pair have "hb = head c"
        by (auto simp: hb_append_def split: if_splits)
      with Pair Some False assms show ?thesis
        by (auto simp: Append_def)
    qed
  qed
qed

lemma ordered_apply_op: "ordered c \<Longrightarrow> ordered (apply_op P c x)"
  by (cases x) (simp_all add: apply_op_def ordered_Append ordered_cut)

lemma ordered_run_ops: "ordered c \<Longrightarrow> ordered (run_ops P c xs)"
  unfolding run_ops_def by (induction xs arbitrary: c) (simp_all add: ordered_apply_op)

text \<open>
  C5. After any sequence of appends and cuts on a new chunk, every block's \<open>maxt\<close>
  is at most the next block's \<open>mint\<close>, and when there are blocks and the head is not
  empty the last block's \<open>maxt\<close> is at most the head's \<open>mint\<close>.
\<close>

theorem blocks_ordered:
  "(\<forall>i. Suc i < length (blocks (run_ops P (NewMemChunk enc bsz tsz) xs)) \<longrightarrow>
      blk_maxt (blocks (run_ops P (NewMemChunk enc bsz tsz) xs) ! i) \<le>s
      blk_mint (blocks (run_ops P (NewMemChunk enc bsz tsz) xs) ! Suc i)) \<and>
   (blocks (run_ops P (NewMemChunk enc bsz tsz) xs) \<noteq> [] \<and>
    \<not> isEmpty (head (run_ops P (NewMemChunk enc bsz tsz) xs)) \<longrightarrow>
      blk_maxt (last (blocks (run_ops P (NewMemChunk enc bsz tsz) xs))) \<le>s
      hb_mint (head (run_ops P (NewMemChunk enc bsz tsz) xs)))"
proof -
  have "ordered (run_ops P (NewMemChunk enc bsz tsz) xs)"
    by (simp add: ordered_run_ops ordered_NewMemChunk)
  then show ?thesis
    by (auto simp: ordered_def successively_conv_nth)
qed

lemma run_ops_s2:
  "length (blocks (run_ops none_pools (NewMemChunk 0 4 0) ops_s2)) = 2 \<and>
   \<not> isEmpty (head (run_ops none_pools (NewMemChunk 0 4 0) ops_s2))"
  by (simp add: run_ops_def ops_s2_def apply_op_def Append_def hb_append_def cut_def
      NewMemChunk_def empty_head_def isEmpty_def serialise_none_pools word_sless_alt)

theorem blocks_ordered_witness:
  "blk_maxt (blocks (run_ops none_pools (NewMemChunk 0 4 0) ops_s2) ! 0) \<le>s
     blk_mint (blocks (run_ops none_pools (NewMemChunk 0 4 0) ops_s2) ! Suc 0) \<and>
   blk_maxt (last (blocks (run_ops none_pools (NewMemChunk 0 4 0) ops_s2))) \<le>s
     hb_mint (head (run_ops none_pools (NewMemChunk 0 4 0) ops_s2)) \<and>
   length (blocks (run_ops none_pools (NewMemChunk 0 4 0) ops_s2)) = 2 \<and>
   \<not> isEmpty (head (run_ops none_pools (NewMemChunk 0 4 0) ops_s2))"
proof -
  let ?c = "run_ops none_pools (NewMemChunk 0 4 0) ops_s2"
  have l: "length (blocks ?c) = 2" and h: "\<not> isEmpty (head ?c)"
    using run_ops_s2 by simp_all
  from l have "Suc 0 < length (blocks ?c)" "blocks ?c \<noteq> []"
    by auto
  with h l show ?thesis
    using blocks_ordered [of none_pools 0 4 0 ops_s2] by blast
qed

subsection \<open>Malformed input\<close>

text \<open>
  C4 fails on the code. The header is read through checked reads, the trailer is
  not: on an input that ends after a valid header, \<^verbatim>\<open>b[len(b)-8:]\<close> is out of bounds
  and \<^verbatim>\<open>NewByteChunk\<close> panics.
\<close>

theorem NewByteChunk_truncated_panics:
  "NewByteChunk truncated_header bsz tsz = Inl RuntimePanic"
  by (simp add: NewByteChunk_def truncated_header_def db_be32_def db_byte_def be32_def
      magicNumber_def chunkFormatV1_def subslice_from_def subslice_def)

lemma Next_long_line:
  "Next none_pools (newBufferedIterator 0 long_line_block) = Some (Inr (False, it_failed))"
  by (simp add: Next_def newBufferedIterator_def none_pools_def moveNext_def ReadVarint_def
      ReadUvarint_def long_line_block_def MaxVarintLen64_def unzigzag_def int_of_uint64_def
      maxLineLength_def Close_def close_def it_failed_def)

lemma Next_closed: "it_closed it \<Longrightarrow> it_reader it = None \<Longrightarrow> Next P it = Some (Inl RuntimePanic)"
  by (simp add: Next_def moveNext_def)

lemma read_rest_at_end:
  assumes "read_rest st lineSize got = Some y"
  shows "\<not> (pending st = [] \<and> ending st = ErrEOF \<and> int (length got) < lineSize)"
proof (rule read_rest.raw_induct
    [where P = "\<lambda>st lineSize got y.
       \<not> (pending st = [] \<and> ending st = ErrEOF \<and> int (length got) < lineSize)",
     OF _ assms])
  fix f :: "stream \<Rightarrow> int \<Rightarrow> bytes \<Rightarrow> ((error option \<times> bytes) \<times> stream) option"
    and st lineSize got y
  assume ih: "\<And>st lineSize got y. f st lineSize got = Some y \<Longrightarrow>
      \<not> (pending st = [] \<and> ending st = ErrEOF \<and> int (length got) < lineSize)"
    and body: "(if int (length got) < lineSize then
        (case Read st (lineSize - int (length got)) of
           (r, e, st') \<Rightarrow>
             if e \<noteq> None \<and> e \<noteq> Some ErrEOF then Some ((e, got), st')
             else f st' lineSize (got @ r))
      else Some ((None, got), st)) = Some y"
  show "\<not> (pending st = [] \<and> ending st = ErrEOF \<and> int (length got) < lineSize)"
  proof
    assume a: "pending st = [] \<and> ending st = ErrEOF \<and> int (length got) < lineSize"
    then have "Read st (lineSize - int (length got)) = ([], Some ErrEOF, st)"
      by (simp add: Read_def)
    with a body have "f st lineSize got = Some y"
      by simp
    with ih a show False
      by blast
  qed
qed

lemma read_rest_diverges:
  "pending st = [] \<Longrightarrow> ending st = ErrEOF \<Longrightarrow> int (length got) < lineSize \<Longrightarrow>
   read_rest st lineSize got = None"
  using read_rest_at_end [of st lineSize got] by (cases "read_rest st lineSize got") auto

lemma Next_short_line:
  "Next none_pools (newBufferedIterator 0 short_line_block) = None"
  by (simp add: Next_def newBufferedIterator_def none_pools_def moveNext_def ReadVarint_def
      ReadUvarint_def short_line_block_def MaxVarintLen64_def unzigzag_def int_of_uint64_def
      maxLineLength_def line_buffer_def Read_def read_rest_diverges)

text \<open>
  C9 fails on the code. After the \<^verbatim>\<open>Next\<close> that sets the error for a line of \<open>2^30\<close>
  bytes has returned \<^verbatim>\<open>false\<close> (and \<^verbatim>\<open>Error\<close> returns the cause), the iterator is
  closed and its reader is \<^verbatim>\<open>nil\<close>: the next \<^verbatim>\<open>Next\<close> dereferences it and panics. On
  a block that ends inside a line no error is set at all: \<^verbatim>\<open>moveNext\<close> keeps reading
  at the end of the stream, and \<^verbatim>\<open>Next\<close> does not return.
\<close>

theorem Next_after_error:
  "Next none_pools (newBufferedIterator 0 long_line_block) = Some (Inr (False, it_failed)) \<and>
   Error it_failed = Some (ErrLineTooLong 1073741824) \<and>
   Next none_pools it_failed = Some (Inl RuntimePanic) \<and>
   Next none_pools (newBufferedIterator 0 short_line_block) = None"
  by (simp add: Next_long_line Next_short_line Error_def) (simp add: it_failed_def Next_closed)

subsection \<open>Serialising twice\<close>

lemma write_blocks_again:
  "write_blocks offset (fst (write_blocks offset blks)) = write_blocks offset blks"
proof (induction blks arbitrary: offset)
  case Nil
  show ?case by simp
next
  case (Cons blk rest)
  obtain rest' out offset'
    where w: "write_blocks (offset + int (length (blk_b blk @ PutUint32 (crc32c (blk_b blk))))) rest
      = (rest', out, offset')"
    by (cases "write_blocks (offset + int (length (blk_b blk @ PutUint32 (crc32c (blk_b blk))))) rest")
      auto
  from Cons [of "offset + int (length (blk_b blk @ PutUint32 (crc32c (blk_b blk))))"] w
  have "write_blocks (offset + int (length (blk_b blk @ PutUint32 (crc32c (blk_b blk))))) rest'
      = (rest', out, offset')"
    by simp
  with w show ?case
    by (simp add: Let_def)
qed

lemma cut_leaves_head_empty:
  "cut P c = (None, c') \<Longrightarrow> isEmpty (head c')"
  by (auto simp: cut_def isEmpty_def split: if_splits sum.splits)

lemma Bytes_failed: "cut P c = (Some e, c') \<Longrightarrow> Bytes P c = (Inl e, c)"
  by (auto simp: Bytes_def cut_def split: if_splits sum.splits)

lemma Bytes_cut:
  assumes "cut P c = (None, c')"
  shows "Bytes P c =
    (Inr (chunk_header (format c') (encoding c') @
          fst (snd (write_blocks (int (length (chunk_header (format c') (encoding c')))) (blocks c'))) @
          block_metas (fst (write_blocks (int (length (chunk_header (format c') (encoding c')))) (blocks c'))) @
          PutUint32 (crc32c (block_metas (fst (write_blocks (int (length (chunk_header (format c') (encoding c')))) (blocks c'))))) @
          PutUint64 (uint64_of_int (snd (snd (write_blocks (int (length (chunk_header (format c') (encoding c')))) (blocks c')))))),
     c'\<lparr>blocks := fst (write_blocks (int (length (chunk_header (format c') (encoding c')))) (blocks c'))\<rparr>)"
  using assms by (simp add: Bytes_def Let_def split: prod.splits)

lemma Bytes_sealed:
  assumes "cut P c = (None, c')"
  shows "Bytes P' (snd (Bytes P c)) = Bytes P c"
proof -
  let ?h = "int (length (chunk_header (format c') (encoding c')))"
  let ?c2 = "c'\<lparr>blocks := fst (write_blocks ?h (blocks c'))\<rparr>"
  from assms have e: "isEmpty (head c')"
    by (rule cut_leaves_head_empty)
  then have cut2: "cut P' ?c2 = (None, ?c2)"
    by (simp add: cut_def)
  from assms have 1: "snd (Bytes P c) = ?c2"
    by (simp add: Bytes_cut)
  have "Bytes P' ?c2 = Bytes P c"
    by (simp add: Bytes_cut [OF cut2] Bytes_cut [OF assms] write_blocks_again)
  with 1 show ?thesis
    by simp
qed

text \<open>
  C10. Calling \<^verbatim>\<open>Bytes\<close> twice in succession returns the same result. When the first
  call returns bytes, the cut of the second call does nothing, and the second call
  returns those bytes whatever the compression adapter is: no compressor is run.
\<close>

theorem Bytes_twice:
  "fst (Bytes P (snd (Bytes P c))) = fst (Bytes P c) \<and>
   (fst (Bytes P c) = Inr p \<longrightarrow>
      cut P' (snd (Bytes P c)) = (None, snd (Bytes P c)) \<and>
      Bytes P' (snd (Bytes P c)) = (Inr p, snd (Bytes P c)))"
proof (cases "cut P c")
  case (Pair r c')
  show ?thesis
  proof (cases r)
    case None
    with Pair have c: "cut P c = (None, c')"
      by simp
    have "isEmpty (head (snd (Bytes P c)))"
      using cut_leaves_head_empty [OF c] by (simp add: Bytes_cut [OF c])
    then have "cut P' (snd (Bytes P c)) = (None, snd (Bytes P c))"
      by (simp add: cut_def)
    moreover have "Bytes P' (snd (Bytes P c)) = Bytes P c" "Bytes P (snd (Bytes P c)) = Bytes P c"
      using Bytes_sealed [OF c] by simp_all
    ultimately show ?thesis
      by (metis prod.collapse)
  next
    case (Some e)
    with Pair have "Bytes P c = (Inl e, c)"
      by (simp add: Bytes_failed)
    then show ?thesis
      by simp
  qed
qed

theorem Bytes_twice_witness:
  "fst (Bytes none_pools (snd (Bytes none_pools chunk_s2))) = fst (Bytes none_pools chunk_s2) \<and>
   cut none_pools (snd (Bytes none_pools chunk_s2)) = (None, snd (Bytes none_pools chunk_s2)) \<and>
   (case fst (Bytes none_pools chunk_s2) of Inl e \<Rightarrow> False | Inr p \<Rightarrow> True)"
proof -
  have c: "cut none_pools chunk_s2 = (None, snd (cut none_pools chunk_s2))"
    by (simp add: cut_def chunk_s2_def NewMemChunk_def isEmpty_def entries_s2_def
        serialise_none_pools)
  obtain p where p: "fst (Bytes none_pools chunk_s2) = Inr p"
    by (simp add: Bytes_cut [OF c])
  with Bytes_twice [of none_pools chunk_s2 p none_pools] show ?thesis
    by simp
qed

subsection \<open>Encoding and decoding integers\<close>

lemma varint_byte_high: "\<not> ((ucast (x :: 64 word) :: 8 word) OR 0x80 < 0x80)"
  by (simp add: not_less le_word_or1)

lemma varint_byte_low_gen: "k < 8 \<Longrightarrow> (ucast (((ucast (x :: 64 word) :: 8 word) OR 2 ^ k) AND mask k) :: 64 word) = take_bit k x"
  by (rule bit_word_eqI) (auto simp: bit_simps)

lemma varint_byte_low: "(ucast (((ucast (x :: 64 word) :: 8 word) OR 0x80) AND 0x7f) :: 64 word) = take_bit 7 x"
  using varint_byte_low_gen [where k = 7 and x = x] by (simp add: mask_eq_exp_minus_1)

lemma small_byte_less: "(x :: 64 word) < 0x80 \<Longrightarrow> (ucast x :: 8 word) < 0x80"
  by (simp add: word_less_nat_alt unsigned_ucast_eq take_bit_eq_mod)

lemma byte_of: "(ucast (ucast (w :: 'a::len word) :: 8 word) :: 'a word) = take_bit 8 w"
  by (rule bit_word_eqI) (auto simp: bit_simps)

lemma small_byte_ucast: "(x :: 64 word) < 0x80 \<Longrightarrow> (ucast (ucast x :: 8 word) :: 64 word) = x"
proof -
  assume "x < 0x80"
  then have "x < 2 ^ 8"
    by (simp add: word_less_nat_alt)
  then have "x AND mask 8 = x"
    by (rule less_mask_eq)
  then show ?thesis
    by (simp add: byte_of take_bit_eq_mask)
qed

lemma small_byte_bit: "(x :: 64 word) < 2 \<Longrightarrow> \<not> 1 < (ucast x :: 8 word)"
  by (simp add: word_less_nat_alt unsigned_ucast_eq take_bit_eq_mod)

lemma split_bits: "take_bit k x OR push_bit k (drop_bit k x) = (x :: 'a::len word)"
proof (rule bit_word_eqI)
  fix n assume "n < LENGTH('a)"
  then show "bit (take_bit k x OR push_bit k (drop_bit k x)) n = bit x n"
    by (cases "n < k") (auto simp: bit_simps)
qed

lemma push_bit_split7: "push_bit sh (take_bit 7 x) OR push_bit (sh + 7) (drop_bit 7 x) = push_bit sh (x :: 64 word)"
proof -
  have "push_bit sh (take_bit 7 x OR push_bit 7 (drop_bit 7 x)) = push_bit sh x"
    by (simp only: split_bits)
  then show ?thesis
    by (simp add: push_bit_or push_bit_add add.commute)
qed

lemma and_one_bit0: "(u AND 1 \<noteq> 0) = bit (u :: 64 word) 0"
  by (simp add: bit_0 and_one_eq odd_iff_mod_2_eq_one)

lemma zigzag_neg_bits:
  "n < 64 \<Longrightarrow> bit (NOT (drop_bit k (NOT (push_bit k (x :: 64 word))))) n =
     (\<not> k + n < 64 \<or> bit x n)"
  by (auto simp: bit_simps)

lemma zigzag_pos_bits:
  "bit (drop_bit k (push_bit k (x :: 64 word))) n = (k + n < 64 \<and> bit x n)"
  by (auto simp: bit_simps)

lemma unzigzag_zigzag: "unzigzag (zigzag x) = x"
proof (cases "x <s 0")
  case True
  then have b: "bit x 63"
    using bit_last_iff [of x] by (simp add: word_sless_alt)
  have o: "bit (NOT (push_bit 1 x)) 0"
    by (simp add: bit_simps bit_0)
  have "NOT (drop_bit 1 (NOT (push_bit 1 x))) = x"
  proof (rule bit_word_eqI)
    fix n assume n: "n < LENGTH(64)"
    then have "n < 64"
      by simp
    then have "bit (NOT (drop_bit 1 (NOT (push_bit 1 x)))) n = (\<not> 1 + n < 64 \<or> bit x n)"
      by (rule zigzag_neg_bits)
    with b n show "bit (NOT (drop_bit 1 (NOT (push_bit 1 x)))) n = bit x n"
      by (cases "n = 63") auto
  qed
  with True o show ?thesis
    by (simp add: unzigzag_def zigzag_def Let_def and_one_bit0)
next
  case False
  then have b: "\<not> bit x 63"
    using bit_last_iff [of x] by (simp add: word_sless_alt)
  have o: "\<not> bit (push_bit 1 x) 0"
    by (simp add: bit_simps bit_0)
  have "drop_bit 1 (push_bit 1 x) = x"
  proof (rule bit_word_eqI)
    fix n assume n: "n < LENGTH(64)"
    have "bit (drop_bit 1 (push_bit 1 x)) n = (1 + n < 64 \<and> bit x n)"
      by (simp only: zigzag_pos_bits)
    with b n show "bit (drop_bit 1 (push_bit 1 x)) n = bit x n"
      by (cases "n = 63") auto
  qed
  with False o show ?thesis
    by (simp add: unzigzag_def zigzag_def Let_def and_one_bit0)
qed

lemma be32_PutUint32: "be32 (PutUint32 x @ rest) = x"
proof (rule bit_word_eqI)
  fix n assume "n < LENGTH(32)"
  then consider "n < 8" | "8 \<le> n" "n < 16" | "16 \<le> n" "n < 24" | "24 \<le> n" "n < 32"
    by fastforce
  then show "bit (be32 (PutUint32 x @ rest)) n = bit x n"
    by cases (auto simp: be32_def PutUint32_def bit_simps)
qed

lemma be64_PutUint64: "be64 (PutUint64 x @ rest) = x"
proof (rule bit_word_eqI)
  fix n assume "n < LENGTH(64)"
  then consider "n < 8" | "8 \<le> n" "n < 16" | "16 \<le> n" "n < 24" | "24 \<le> n" "n < 32"
    | "32 \<le> n" "n < 40" | "40 \<le> n" "n < 48" | "48 \<le> n" "n < 56" | "56 \<le> n" "n < 64"
    by fastforce
  then show "bit (be64 (PutUint64 x @ rest)) n = bit x n"
    by cases (auto simp: be64_def PutUint64_def bit_simps)
qed

lemma PutUvarint_big: "0x80 \<le> x \<Longrightarrow> PutUvarint x = (ucast x OR 0x80) # PutUvarint (drop_bit 7 x)"
  by (subst PutUvarint.simps) simp

lemma PutUvarint_small: "\<not> 0x80 \<le> x \<Longrightarrow> PutUvarint x = [ucast x]"
  by (subst PutUvarint.simps) simp

lemma PutUvarint_not_Nil: "PutUvarint x \<noteq> []"
  by (subst PutUvarint.simps) simp

lemma varint_step_bound:
  assumes "0x80 \<le> (x :: 64 word)" and "i \<le> 9" and "unat x < 2 ^ (64 - 7 * i)"
  shows "i \<le> 8" and "unat (drop_bit 7 x) < 2 ^ (64 - 7 * (i + 1))"
proof -
  from assms(1) have big: "128 \<le> unat x"
    by (simp add: word_le_nat_alt)
  show i: "i \<le> 8"
  proof (rule ccontr)
    assume "\<not> i \<le> 8"
    with assms(2) have "i = 9"
      by simp
    with assms(3) big show False
      by simp
  qed
  then have "64 - 7 * i = (64 - 7 * (i + 1)) + 7"
    by simp
  then have "(2 :: nat) ^ (64 - 7 * i) = 2 ^ (64 - 7 * (i + 1)) * 2 ^ 7"
    by (simp only: power_add)
  with assms(3) have "unat x div 2 ^ 7 < 2 ^ (64 - 7 * (i + 1))"
    by (simp add: less_mult_imp_div_less)
  then show "unat (drop_bit 7 x) < 2 ^ (64 - 7 * (i + 1))"
    by (simp add: drop_bit_eq_div unat_div)
qed

lemma varint_last_small:
  assumes "unat (x :: 64 word) < 2 ^ (64 - 7 * i)" and "i = 9"
  shows "\<not> 1 < (ucast x :: 8 word)"
proof -
  from assms have "unat x < 2"
    by simp
  then have "x < 2"
    by (simp add: word_less_nat_alt)
  then show ?thesis
    by (rule small_byte_bit)
qed

lemma Uvarint_loop_PutUvarint:
  "i \<le> 9 \<Longrightarrow> unat x < 2 ^ (64 - 7 * i) \<Longrightarrow>
   Uvarint_loop i (7 * i) acc (PutUvarint x @ rest) =
     (acc OR push_bit (7 * i) x, int i + int (length (PutUvarint x)))"
proof (induction x arbitrary: i acc rule: PutUvarint.induct)
  case (1 x)
  show ?case
  proof (cases "0x80 \<le> x")
    case True
    from varint_step_bound [OF True "1.prems"]
    have i: "i \<le> 8" and b: "unat (drop_bit 7 x) < 2 ^ (64 - 7 * (i + 1))"
      by simp_all
    from i have i1: "i + 1 \<le> 9"
      by simp
    have "Uvarint_loop i (7 * i) acc (PutUvarint x @ rest) =
        Uvarint_loop (i + 1) (7 * (i + 1)) (acc OR push_bit (7 * i) (take_bit 7 x))
          (PutUvarint (drop_bit 7 x) @ rest)"
      using i by (simp add: PutUvarint_big [OF True] MaxVarintLen64_def varint_byte_high varint_byte_low add.commute)
    also have "\<dots> = ((acc OR push_bit (7 * i) (take_bit 7 x)) OR push_bit (7 * (i + 1)) (drop_bit 7 x),
        int (i + 1) + int (length (PutUvarint (drop_bit 7 x))))"
      using "1.IH" [OF True i1 b] .
    also have "(acc OR push_bit (7 * i) (take_bit 7 x)) OR push_bit (7 * (i + 1)) (drop_bit 7 x)
        = acc OR push_bit (7 * i) x"
      using push_bit_split7 [of "7 * i" x] by (simp add: or.assoc add.commute)
    finally show ?thesis
      by (simp add: PutUvarint_big [OF True])
  next
    case False
    then have small: "x < 0x80"
      by simp
    have last: "i = 9 \<Longrightarrow> \<not> 1 < (ucast x :: 8 word)"
      using varint_last_small [OF "1.prems"(2)] .
    from "1.prems"(1) show ?thesis
      using last by (auto simp: PutUvarint_small [OF False] MaxVarintLen64_def small_byte_less [OF small] small_byte_ucast [OF small])
  qed
qed

lemma Uvarint_PutUvarint:
  "Uvarint (PutUvarint x @ rest) = (x, int (length (PutUvarint x)))"
  using Uvarint_loop_PutUvarint [of 0 x 0 rest] unsigned_less [of x, where 'a = nat]
  by (simp add: Uvarint_def)

lemma Varint_PutVarint:
  "Varint (PutVarint x @ rest) = (x, int (length (PutVarint x)))"
  by (simp add: Varint_def PutVarint_def Uvarint_PutUvarint unzigzag_zigzag)

lemma db_uvarint64_PutUvarint:
  "db_uvarint64 \<lparr>db_b = PutUvarint x @ rest, db_e = None\<rparr> = (x, \<lparr>db_b = rest, db_e = None\<rparr>)"
  using PutUvarint_not_Nil [of x] by (simp add: db_uvarint64_def Uvarint_PutUvarint)

lemma db_varint64_PutVarint:
  "db_varint64 \<lparr>db_b = PutVarint x @ rest, db_e = None\<rparr> = (x, \<lparr>db_b = rest, db_e = None\<rparr>)"
  using PutUvarint_not_Nil [of "zigzag x"]
  by (simp add: db_varint64_def Varint_PutVarint) (simp add: PutVarint_def)

lemma ReadUvarint_loop_PutUvarint:
  "i \<le> 9 \<Longrightarrow> unat x < 2 ^ (64 - 7 * i) \<Longrightarrow>
   ReadUvarint_loop i (7 * i) acc eof (PutUvarint x @ rest) =
     ((acc OR push_bit (7 * i) x, None), rest)"
proof (induction x arbitrary: i acc rule: PutUvarint.induct)
  case (1 x)
  show ?case
  proof (cases "0x80 \<le> x")
    case True
    from varint_step_bound [OF True "1.prems"]
    have i: "i \<le> 8" and b: "unat (drop_bit 7 x) < 2 ^ (64 - 7 * (i + 1))"
      by simp_all
    from i have i1: "i + 1 \<le> 9"
      by simp
    have "ReadUvarint_loop i (7 * i) acc eof (PutUvarint x @ rest) =
        ReadUvarint_loop (i + 1) (7 * (i + 1)) (acc OR push_bit (7 * i) (take_bit 7 x)) eof
          (PutUvarint (drop_bit 7 x) @ rest)"
      using i by (simp add: PutUvarint_big [OF True] MaxVarintLen64_def varint_byte_high varint_byte_low add.commute)
    also have "\<dots> = (((acc OR push_bit (7 * i) (take_bit 7 x)) OR push_bit (7 * (i + 1)) (drop_bit 7 x),
        None), rest)"
      using "1.IH" [OF True i1 b] .
    also have "(acc OR push_bit (7 * i) (take_bit 7 x)) OR push_bit (7 * (i + 1)) (drop_bit 7 x)
        = acc OR push_bit (7 * i) x"
      using push_bit_split7 [of "7 * i" x] by (simp add: or.assoc add.commute)
    finally show ?thesis .
  next
    case False
    then have small: "x < 0x80"
      by simp
    have last: "i = 9 \<Longrightarrow> \<not> 1 < (ucast x :: 8 word)"
      using varint_last_small [OF "1.prems"(2)] .
    from "1.prems"(1) show ?thesis
      using last by (auto simp: PutUvarint_small [OF False] MaxVarintLen64_def small_byte_less [OF small] small_byte_ucast [OF small])
  qed
qed

lemma ReadUvarint_PutUvarint:
  "ReadUvarint \<lparr>pending = PutUvarint x @ rest, ending = eof\<rparr> =
     ((x, None), \<lparr>pending = rest, ending = eof\<rparr>)"
  using ReadUvarint_loop_PutUvarint [of 0 x 0 eof rest] unsigned_less [of x, where 'a = nat]
  by (simp add: ReadUvarint_def)

lemma ReadVarint_PutVarint:
  "ReadVarint \<lparr>pending = PutVarint x @ rest, ending = eof\<rparr> =
     ((x, None), \<lparr>pending = rest, ending = eof\<rparr>)"
  by (simp add: ReadVarint_def PutVarint_def ReadUvarint_PutUvarint unzigzag_zigzag)

subsection \<open>Parsing a well-formed container\<close>

lemma int_of_uint64_of_int:
  "- (2 ^ 63) \<le> x \<Longrightarrow> x < 2 ^ 63 \<Longrightarrow> int_of_uint64 (uint64_of_int x) = x"
proof -
  assume "- (2 ^ 63) \<le> x" "x < 2 ^ 63"
  then have "signed_take_bit 63 x = x"
    by (simp add: signed_take_bit_int_eq_self)
  then show ?thesis
    by (simp add: int_of_uint64_def uint64_of_int_def sint_sbintrunc')
qed

lemma int_of_uint64_wrap: "int_of_uint64 (uint64_of_int x) = wrap_int x"
  by (simp add: int_of_uint64_def uint64_of_int_def wrap_int_def)

lemma wrap_int_id: "- (2 ^ 63) \<le> x \<Longrightarrow> x < 2 ^ 63 \<Longrightarrow> wrap_int x = x"
  using int_of_uint64_of_int [of x] by (simp add: int_of_uint64_wrap)

lemma uint_uint64_of_int: "0 \<le> x \<Longrightarrow> x < 2 ^ 64 \<Longrightarrow> uint (uint64_of_int x) = x"
  by (simp add: uint64_of_int_def uint_word_of_int)

lemma db_uvarint_PutUvarint:
  "db_uvarint \<lparr>db_b = PutUvarint (uint64_of_int x) @ rest, db_e = None\<rparr> =
     (wrap_int x, \<lparr>db_b = rest, db_e = None\<rparr>)"
  by (simp add: db_uvarint_def db_uvarint64_PutUvarint int_of_uint64_wrap)

lemma subslice_in_bounds:
  "0 \<le> lo \<Longrightarrow> lo \<le> hi \<Longrightarrow> hi \<le> int (length p) \<Longrightarrow>
   subslice p lo hi = Inr (take (nat (hi - lo)) (drop (nat lo) p))"
  by (simp add: subslice_def)

lemma subslice_from_in_bounds:
  "0 \<le> lo \<Longrightarrow> lo \<le> int (length p) \<Longrightarrow> subslice_from p lo = Inr (drop (nat lo) p)"
  by (simp add: subslice_from_def subslice_def)

lemma read_blocks_step:
  assumes m: "meta_in_bounds p m" and len: "int (length p) < 2 ^ 63"
  shows "read_blocks p (Suc n) \<lparr>db_b = put_meta m @ rest, db_e = None\<rparr> blks cbs =
     (if crc_ok p m
      then read_blocks p n \<lparr>db_b = rest, db_e = None\<rparr> (blks @ [block_of p m]) (cbs + m_len m)
      else read_blocks p n \<lparr>db_b = rest, db_e = None\<rparr> blks cbs)"
proof -
  from m have o: "0 \<le> m_offset m" and l: "0 \<le> m_len m"
    and e: "m_offset m + m_len m + 4 \<le> int (length p)"
    by (simp_all add: meta_in_bounds_def)
  from o l e len have wo: "wrap_int (m_offset m) = m_offset m"
    and wl: "wrap_int (m_len m) = m_len m"
    and ws: "wrap_int (m_offset m + m_len m) = m_offset m + m_len m"
    by (simp_all add: wrap_int_id)
  from o l e have s1: "subslice p (m_offset m) (m_offset m + m_len m) = Inr (payload p m)"
    by (simp add: subslice_in_bounds payload_def)
  from o l e have s2: "subslice_from p (m_offset m + m_len m) =
      Inr (drop (nat (m_offset m + m_len m)) p)"
    by (simp add: subslice_from_in_bounds)
  from o l e have "\<not> length (drop (nat (m_offset m + m_len m)) p) < 4"
    by simp
  then have s3: "Uint32 (drop (nat (m_offset m + m_len m)) p) = Inr (stored_crc p m)"
    by (simp add: Uint32_def stored_crc_def)
  have s4: "int (length (payload p m)) = m_len m"
    using o l e by (simp add: payload_def)
  show ?thesis
    by (simp add: put_meta_def db_uvarint_PutUvarint db_varint64_PutVarint wo wl ws s1 s2 s3 s4
        crc_ok_def block_of_def)
qed

lemma read_blocks_metas:
  assumes "list_all (meta_in_bounds p) ms" and "int (length p) < 2 ^ 63"
  shows "read_blocks p (length ms) \<lparr>db_b = concat (map put_meta ms) @ rest, db_e = None\<rparr> blks cbs =
     Inr (blks @ map (block_of p) (filter (crc_ok p) ms),
          cbs + sum_list (map m_len (filter (crc_ok p) ms)))"
  using assms(1)
proof (induction ms arbitrary: blks cbs)
  case Nil
  show ?case by simp
next
  case (Cons m ms)
  then have m: "meta_in_bounds p m" and ms: "list_all (meta_in_bounds p) ms"
    by simp_all
  show ?case
    using Cons.IH [OF ms]
    by (simp add: read_blocks_step [OF m assms(2)] del: read_blocks.simps(2))
qed

lemma length_PutUint32 [simp]: "length (PutUint32 x) = 4"
  by (simp add: PutUint32_def)

lemma length_PutUint64 [simp]: "length (PutUint64 x) = 8"
  by (simp add: PutUint64_def)

lemma Uint32_PutUint32: "Uint32 (PutUint32 x @ rest) = Inr x"
  by (simp add: Uint32_def be32_PutUint32)

lemma Uint64_PutUint64: "Uint64 (PutUint64 x @ rest) = Inr x"
  by (simp add: Uint64_def be64_PutUint64)

lemma db_be32_PutUint32:
  "db_be32 \<lparr>db_b = PutUint32 x @ rest, db_e = None\<rparr> = (x, \<lparr>db_b = rest, db_e = None\<rparr>)"
  by (simp add: db_be32_def be32_PutUint32)

lemma db_byte_Cons:
  "db_byte \<lparr>db_b = x # rest, db_e = None\<rparr> = (x, \<lparr>db_b = rest, db_e = None\<rparr>)"
  by (simp add: db_byte_def)

text \<open>The container: a header, the payloads, the metadata section, its checksum, and the
  offset of the metadata section.\<close>

lemma NewByteChunk_container:
  assumes fmt: "fmt = chunkFormatV1 \<or> fmt = chunkFormatV2"
    and p: "p = chunk_header fmt enc @ body @ mb @ PutUint32 c @
      PutUint64 (uint64_of_int (int (length (chunk_header fmt enc @ body))))"
    and len: "int (length p) < 2 ^ 63"
  shows "NewByteChunk p bsz tsz =
     (if c \<noteq> crc32c mb then Inl ErrInvalidChecksum
      else (case db_uvarint \<lparr>db_b = mb, db_e = None\<rparr> of
          (num, d) \<Rightarrow>
            if num < 0 then Inl RuntimePanic
            else (case read_blocks p (nat num) d [] 0 of
                Inl e \<Rightarrow> Inl e
              | Inr (blks, cbs) \<Rightarrow>
                  Inr \<lparr>blockSize = bsz, targetSize = tsz, blocks = blks, cutBlockSize = cbs,
                       head = empty_head, format = fmt,
                       encoding = parsed_encoding fmt enc\<rparr>)))"
proof -
  let ?hdr = "chunk_header fmt enc"
  define w where "w = uint64_of_int (int (length (?hdr @ body)))"
  let ?tail = "(if fmt = chunkFormatV2 then [enc] else []) @ body @ mb @ PutUint32 c @ PutUint64 w"
  have pw: "p = ?hdr @ body @ mb @ PutUint32 c @ PutUint64 w"
    by (simp add: p w_def)
  have p': "p = PutUint32 magicNumber @ fmt # ?tail"
    by (simp add: pw chunk_header_def)
  have h1: "db_be32 \<lparr>db_b = p, db_e = None\<rparr> = (magicNumber, \<lparr>db_b = fmt # ?tail, db_e = None\<rparr>)"
    unfolding p' by (rule db_be32_PutUint32)
  have lp: "length p = length (?hdr @ body) + length mb + 12"
    by (simp add: pw)
  have off: "uint w = int (length (?hdr @ body))"
    unfolding w_def using len lp by (intro uint_uint64_of_int) simp_all
  have d8: "drop (nat (int (length p) - 8)) p = PutUint64 w"
  proof -
    have "nat (int (length p) - 8) = length (?hdr @ body @ mb @ PutUint32 c)"
      by (simp add: lp)
    moreover have "p = (?hdr @ body @ mb @ PutUint32 c) @ PutUint64 w"
      by (simp add: pw)
    ultimately show ?thesis
      by (metis append_eq_conv_conj)
  qed
  have d12: "drop (nat (int (length p) - (8 + 4))) p = PutUint32 c @ PutUint64 w"
  proof -
    have "nat (int (length p) - (8 + 4)) = length (?hdr @ body @ mb)"
      by (simp add: lp)
    moreover have "p = (?hdr @ body @ mb) @ PutUint32 c @ PutUint64 w"
      by (simp add: pw)
    ultimately show ?thesis
      by (metis append_eq_conv_conj)
  qed
  have t1: "subslice_from p (int (length p) - 8) = Inr (PutUint64 w @ [])"
  proof -
    have "0 \<le> int (length p) - 8" "int (length p) - 8 \<le> int (length p)"
      using lp by simp_all
    then have "subslice_from p (int (length p) - 8) = Inr (drop (nat (int (length p) - 8)) p)"
      by (rule subslice_from_in_bounds)
    then show ?thesis
      by (simp only: d8 append_Nil2)
  qed
  have t3: "subslice_from p (int (length p) - (8 + 4)) = Inr (PutUint32 c @ PutUint64 w)"
  proof -
    have "0 \<le> int (length p) - (8 + 4)" "int (length p) - (8 + 4) \<le> int (length p)"
      using lp by simp_all
    then have "subslice_from p (int (length p) - (8 + 4)) =
        Inr (drop (nat (int (length p) - (8 + 4))) p)"
      by (rule subslice_from_in_bounds)
    then show ?thesis
      by (simp only: d12)
  qed
  have t2: "subslice p (uint w) (int (length p) - (8 + 4)) = Inr mb"
  proof -
    have "p = (?hdr @ body) @ (mb @ PutUint32 c @ PutUint64 w)"
      by (simp add: pw)
    then have "drop (length (?hdr @ body)) p = mb @ PutUint32 c @ PutUint64 w"
      by (metis append_eq_conv_conj)
    then have "take (length mb) (drop (length (?hdr @ body)) p) = mb"
      by simp
    moreover have "nat (int (length p) - (8 + 4) - uint w) = length mb"
      "nat (uint w) = length (?hdr @ body)"
      unfolding off by (simp_all add: lp)
    moreover have "0 \<le> uint w" "uint w \<le> int (length p) - (8 + 4)"
      "int (length p) - (8 + 4) \<le> int (length p)"
      unfolding off by (simp_all add: lp)
    then have "subslice p (uint w) (int (length p) - (8 + 4)) =
        Inr (take (nat (int (length p) - (8 + 4) - uint w)) (drop (nat (uint w)) p))"
      by (rule subslice_in_bounds)
    ultimately show ?thesis
      by (simp only:)
  qed
  have u64: "Uint64 (PutUint64 w @ []) = Inr w"
    by (rule Uint64_PutUint64)
  have t2': "subslice p (uint w) (int (length p) - 12) = Inr mb"
    using t2 by simp
  have t3': "subslice_from p (int (length p) - 12) = Inr (PutUint32 c @ PutUint64 w)"
    using t3 by simp
  have v: "chunkFormatV1 \<noteq> chunkFormatV2"
    by (simp add: chunkFormatV1_def chunkFormatV2_def)
  have pe1: "parsed_encoding chunkFormatV1 enc = EncGZIP"
    by (simp add: parsed_encoding_def)
  have pe2: "parsed_encoding chunkFormatV2 enc = enc"
    using v by (simp add: parsed_encoding_def)
  from fmt show ?thesis
  proof
    assume 1: "fmt = chunkFormatV1"
    show ?thesis
      unfolding NewByteChunk_def 1 pe1
      by (simp only: h1 [unfolded 1] t1 u64 prod.case sum.case)
        (simp add: db_byte_Cons t2 t3 t2' t3' Uint32_PutUint32 db_crc32_def parsed_encoding_def v)
  next
    assume 2: "fmt = chunkFormatV2"
    show ?thesis
      unfolding NewByteChunk_def 2 pe2
      by (simp only: h1 [unfolded 2] t1 u64 prod.case sum.case)
        (simp add: db_byte_Cons t2 t3 t2' t3' Uint32_PutUint32 db_crc32_def parsed_encoding_def
          v [symmetric])
  qed
qed

lemma put_meta_not_Nil: "put_meta m \<noteq> []"
  by (simp add: put_meta_def PutUvarint_not_Nil)

lemma length_metas: "length ms \<le> length (concat (map put_meta ms))"
proof (induction ms)
  case Nil
  show ?case by simp
next
  case (Cons m ms)
  from Cons show ?case
    using put_meta_not_Nil [of m] by (cases "put_meta m") simp_all
qed

lemma NewByteChunk_metas:
  assumes fmt: "fmt = chunkFormatV1 \<or> fmt = chunkFormatV2"
    and p: "p = chunk_header fmt enc @ body @ put_metas ms @ PutUint32 (crc32c (put_metas ms)) @
      PutUint64 (uint64_of_int (int (length (chunk_header fmt enc @ body))))"
    and len: "int (length p) < 2 ^ 63"
    and ms: "list_all (meta_in_bounds p) ms"
  shows "NewByteChunk p bsz tsz =
     Inr \<lparr>blockSize = bsz, targetSize = tsz,
          blocks = map (block_of p) (filter (crc_ok p) ms),
          cutBlockSize = sum_list (map m_len (filter (crc_ok p) ms)),
          head = empty_head, format = fmt, encoding = parsed_encoding fmt enc\<rparr>"
proof -
  have "length ms \<le> length (put_metas ms)"
    using length_metas [of ms] by (simp add: put_metas_def)
  also have "\<dots> \<le> length p"
    by (simp add: p)
  finally have n: "int (length ms) < 2 ^ 63"
    using len by simp
  then have w: "wrap_int (int (length ms)) = int (length ms)"
    by (simp add: wrap_int_id)
  have u: "db_uvarint \<lparr>db_b = put_metas ms, db_e = None\<rparr> =
      (int (length ms), \<lparr>db_b = concat (map put_meta ms) @ [], db_e = None\<rparr>)"
    by (simp add: put_metas_def db_uvarint_PutUvarint w)
  have r: "read_blocks p (length ms) \<lparr>db_b = concat (map put_meta ms) @ [], db_e = None\<rparr> [] 0 =
      Inr ([] @ map (block_of p) (filter (crc_ok p) ms),
           0 + sum_list (map m_len (filter (crc_ok p) ms)))"
    using ms len by (rule read_blocks_metas)
  show ?thesis
    unfolding NewByteChunk_container [OF fmt p len] u
    by (simp add: r del: append_Nil2)
qed

text \<open>
  C3. On bytes of the container's form (a header, payloads, a metadata section with
  its checksum and its offset), a metadata checksum that does not match makes
  \<^verbatim>\<open>NewByteChunk\<close> fail with \<open>ErrInvalidChecksum\<close>. When it matches and the metas
  point inside the input, parsing succeeds whatever the payloads are, and the chunk
  has exactly the blocks whose stored checksum is the checksum of their payload, in
  order.
\<close>

theorem NewByteChunk_checksums:
  assumes "fmt = chunkFormatV1 \<or> fmt = chunkFormatV2"
    and "p = chunk_header fmt enc @ body @ mb @ PutUint32 c @
      PutUint64 (uint64_of_int (int (length (chunk_header fmt enc @ body))))"
    and "int (length p) < 2 ^ 63"
  shows "(c \<noteq> crc32c mb \<longrightarrow> NewByteChunk p bsz tsz = Inl ErrInvalidChecksum) \<and>
     (c = crc32c mb \<and> mb = put_metas ms \<and> list_all (meta_in_bounds p) ms \<longrightarrow>
        NewByteChunk p bsz tsz =
          Inr \<lparr>blockSize = bsz, targetSize = tsz,
               blocks = map (block_of p) (filter (crc_ok p) ms),
               cutBlockSize = sum_list (map m_len (filter (crc_ok p) ms)),
               head = empty_head, format = fmt, encoding = parsed_encoding fmt enc\<rparr>)"
proof (intro conjI impI)
  assume "c \<noteq> crc32c mb"
  then show "NewByteChunk p bsz tsz = Inl ErrInvalidChecksum"
    by (simp add: NewByteChunk_container [OF assms])
next
  assume a: "c = crc32c mb \<and> mb = put_metas ms \<and> list_all (meta_in_bounds p) ms"
  with assms(2) have p: "p = chunk_header fmt enc @ body @ put_metas ms @
      PutUint32 (crc32c (put_metas ms)) @
      PutUint64 (uint64_of_int (int (length (chunk_header fmt enc @ body))))"
    by simp
  from a have "list_all (meta_in_bounds p) ms"
    by simp
  with assms(1) p assms(3) show "NewByteChunk p bsz tsz =
          Inr \<lparr>blockSize = bsz, targetSize = tsz,
               blocks = map (block_of p) (filter (crc_ok p) ms),
               cutBlockSize = sum_list (map m_len (filter (crc_ok p) ms)),
               head = empty_head, format = fmt, encoding = parsed_encoding fmt enc\<rparr>"
    by (rule NewByteChunk_metas)
qed

lemma crc_byte_eval:
  "crc_byte c x =
     crc_step (crc_step (crc_step (crc_step (crc_step (crc_step (crc_step (crc_step
       (c XOR ucast x))))))))"
  by (simp add: crc_byte_def eval_nat_numeral)

lemmas eval_put =
  PutUvarint_big PutUvarint_small PutVarint_def zigzag_def Let_def word_sless_alt
  PutUint32_def PutUint64_def uint64_of_int_def

lemmas eval_crc = crc32c_def crc_byte_eval crc_step_def

lemma put_metas_s4: "put_metas metas_s4 = [2, 2, 2, 4, 6, 8, 2, 6, 8, 18, 8]"
  by (simp add: put_metas_def put_meta_def metas_s4_def eval_put)

lemma crc_metas_s4: "crc32c [2, 2, 2, 4, 6, 8, 2, 6, 8, 18, 8] = 0xD59D182D"
  by (simp add: eval_crc)

lemma crc_metas_s4_damaged: "0xD59D182D \<noteq> crc32c [2, 2, 2, 4, 6, 8, 2, 6, 8, 19, 8]"
  by (simp add: eval_crc)

lemma trailer_s4: "PutUint32 0xD59D182D @ PutUint64 (uint64_of_int 30) =
    [213, 157, 24, 45, 0, 0, 0, 0, 0, 0, 0, 30]"
  by (simp add: eval_put)

lemma header_s4: "chunk_header chunkFormatV2 0 = [1, 46, 229, 106, 2, 0]"
  by (simp add: chunk_header_def magicNumber_def chunkFormatV2_def eval_put)

lemma payloads_s4:
  "payload chunk_s4_damaged_block \<lparr>m_numEntries = 2, m_mint = 1, m_maxt = 2, m_offset = 6, m_len = 8\<rparr>
     = [2, 2, 96, 98, 4, 2, 99, 100]"
  "payload chunk_s4_damaged_block \<lparr>m_numEntries = 2, m_mint = 3, m_maxt = 4, m_offset = 18, m_len = 8\<rparr>
     = [6, 2, 101, 102, 8, 2, 103, 104]"
  by (simp_all add: payload_def chunk_s4_damaged_block_def body_s4_damaged_def)

lemma stored_crcs_s4:
  "stored_crc chunk_s4_damaged_block \<lparr>m_numEntries = 2, m_mint = 1, m_maxt = 2, m_offset = 6, m_len = 8\<rparr>
     = 0xD027DD96"
  "stored_crc chunk_s4_damaged_block \<lparr>m_numEntries = 2, m_mint = 3, m_maxt = 4, m_offset = 18, m_len = 8\<rparr>
     = 0x2D252A25"
  by (simp_all add: stored_crc_def be32_def chunk_s4_damaged_block_def body_s4_damaged_def)

lemma crcs_s4:
  "0xD027DD96 \<noteq> crc32c [2, 2, 96, 98, 4, 2, 99, 100]"
  "crc32c [6, 2, 101, 102, 8, 2, 103, 104] = 0x2D252A25"
  by (simp_all add: eval_crc)

lemma crc_ok_s4:
  "filter (crc_ok chunk_s4_damaged_block) metas_s4 =
     [\<lparr>m_numEntries = 2, m_mint = 3, m_maxt = 4, m_offset = 18, m_len = 8\<rparr>]"
  by (simp add: metas_s4_def crc_ok_def stored_crcs_s4 payloads_s4 crcs_s4)

theorem NewByteChunk_checksums_witness:
  "NewByteChunk chunk_s4_damaged_block 256 0 =
     Inr \<lparr>blockSize = 256, targetSize = 0,
          blocks = [\<lparr>blk_b = [6, 2, 101, 102, 8, 2, 103, 104], blk_numEntries = 2,
                     blk_mint = 3, blk_maxt = 4, blk_offset = 18, blk_uncompressedSize = 0\<rparr>],
          cutBlockSize = 8, head = empty_head, format = chunkFormatV2, encoding = 0\<rparr> \<and>
   NewByteChunk chunk_s4_damaged_meta 256 0 = Inl ErrInvalidChecksum"
proof -
  have f: "chunkFormatV2 = chunkFormatV1 \<or> chunkFormatV2 = chunkFormatV2"
    by simp
  have l: "length (chunk_header chunkFormatV2 0 @ body_s4_damaged) = 30"
    "length (chunk_header chunkFormatV2 0 @ body_s4) = 30"
    by (simp_all add: header_s4 body_s4_damaged_def body_s4_def)
  have p1: "chunk_s4_damaged_block = chunk_header chunkFormatV2 0 @ body_s4_damaged @
      put_metas metas_s4 @ PutUint32 0xD59D182D @
      PutUint64 (uint64_of_int (int (length (chunk_header chunkFormatV2 0 @ body_s4_damaged))))"
    unfolding l by (simp add: chunk_s4_damaged_block_def header_s4 put_metas_s4 trailer_s4)
  have p2: "chunk_s4_damaged_meta = chunk_header chunkFormatV2 0 @ body_s4 @
      [2, 2, 2, 4, 6, 8, 2, 6, 8, 19, 8] @ PutUint32 0xD59D182D @
      PutUint64 (uint64_of_int (int (length (chunk_header chunkFormatV2 0 @ body_s4))))"
    unfolding l by (simp add: chunk_s4_damaged_meta_def header_s4 trailer_s4)
  have n1: "int (length chunk_s4_damaged_block) < 2 ^ 63"
    by (simp add: chunk_s4_damaged_block_def body_s4_damaged_def)
  have n2: "int (length chunk_s4_damaged_meta) < 2 ^ 63"
    by (simp add: chunk_s4_damaged_meta_def body_s4_def)
  have b: "list_all (meta_in_bounds chunk_s4_damaged_block) metas_s4"
    by (simp add: metas_s4_def meta_in_bounds_def chunk_s4_damaged_block_def body_s4_damaged_def)
  have c: "0xD59D182D = crc32c (put_metas metas_s4)"
    by (simp add: put_metas_s4 crc_metas_s4)
  have pe: "parsed_encoding chunkFormatV2 0 = 0"
    by (simp add: parsed_encoding_def chunkFormatV1_def chunkFormatV2_def)
  have blk: "map (block_of chunk_s4_damaged_block) (filter (crc_ok chunk_s4_damaged_block) metas_s4)
      = [\<lparr>blk_b = [6, 2, 101, 102, 8, 2, 103, 104], blk_numEntries = 2,
           blk_mint = 3, blk_maxt = 4, blk_offset = 18, blk_uncompressedSize = 0\<rparr>]"
    unfolding crc_ok_s4
    by (simp add: block_of_def payloads_s4 wrap_int_id)
  have sz: "sum_list (map m_len (filter (crc_ok chunk_s4_damaged_block) metas_s4)) = 8"
    unfolding crc_ok_s4 by simp
  from NewByteChunk_checksums [OF f p1 n1, of 256 0 metas_s4] b c
  have 1: "NewByteChunk chunk_s4_damaged_block 256 0 =
     Inr \<lparr>blockSize = 256, targetSize = 0,
          blocks = [\<lparr>blk_b = [6, 2, 101, 102, 8, 2, 103, 104], blk_numEntries = 2,
                     blk_mint = 3, blk_maxt = 4, blk_offset = 18, blk_uncompressedSize = 0\<rparr>],
          cutBlockSize = 8, head = empty_head, format = chunkFormatV2, encoding = 0\<rparr>"
    by (simp only: blk sz pe simp_thms)
  from NewByteChunk_checksums [OF f p2 n2, of 256 0] crc_metas_s4_damaged
  have 2: "NewByteChunk chunk_s4_damaged_meta 256 0 = Inl ErrInvalidChecksum"
    by simp
  from 1 2 show ?thesis
    by simp
qed

subsection \<open>Parsing what \<^verbatim>\<open>Bytes\<close> wrote\<close>

lemma write_blocks_Cons:
  "write_blocks offset (blk # rest) =
     (blk\<lparr>blk_offset := offset\<rparr> #
        fst (write_blocks (offset + int (length (blk_b blk @ PutUint32 (crc32c (blk_b blk))))) rest),
      (blk_b blk @ PutUint32 (crc32c (blk_b blk))) @
        fst (snd (write_blocks (offset + int (length (blk_b blk @ PutUint32 (crc32c (blk_b blk))))) rest)),
      snd (snd (write_blocks (offset + int (length (blk_b blk @ PutUint32 (crc32c (blk_b blk))))) rest)))"
  by (simp add: Let_def split: prod.splits)

lemma write_blocks_out:
  "fst (snd (write_blocks offset blks)) = framed blks \<and>
   snd (snd (write_blocks offset blks)) = offset + int (length (framed blks))"
proof (induction blks arbitrary: offset)
  case Nil
  show ?case by (simp add: framed_def)
next
  case (Cons blk rest)
  show ?case
    unfolding write_blocks_Cons using Cons [of "offset + int (length (blk_b blk @ PutUint32 (crc32c (blk_b blk))))"]
    by (simp add: framed_def)
qed

lemma put_meta_of: "put_meta (meta_of blk) = block_meta blk"
  by (simp add: block_meta_def put_meta_def meta_of_def)

lemma block_metas_eq: "block_metas blks = put_metas (map meta_of blks)"
  by (simp add: block_metas_def put_metas_def o_def put_meta_of)

lemma write_blocks_b: "map blk_b (fst (write_blocks offset blks)) = map blk_b blks"
proof (induction blks arbitrary: offset)
  case Nil
  show ?case by simp
next
  case (Cons blk rest)
  show ?case
    unfolding write_blocks_Cons using Cons [of "offset + int (length (blk_b blk @ PutUint32 (crc32c (blk_b blk))))"]
    by simp
qed

text \<open>Every block written lies where its meta says, with a checksum that verifies.\<close>

lemma write_blocks_placed:
  "list_all (\<lambda>blk. meta_in_bounds (pre @ framed blks @ post) (meta_of blk) \<and>
      payload (pre @ framed blks @ post) (meta_of blk) = blk_b blk \<and>
      crc_ok (pre @ framed blks @ post) (meta_of blk))
     (fst (write_blocks (int (length pre)) blks))"
proof (induction blks arbitrary: pre)
  case Nil
  show ?case by simp
next
  case (Cons blk rest)
  let ?eb = "blk_b blk @ PutUint32 (crc32c (blk_b blk))"
  let ?p = "pre @ framed (blk # rest) @ post"
  let ?m = "meta_of (blk\<lparr>blk_offset := int (length pre)\<rparr>)"
  have p: "?p = (pre @ ?eb) @ framed rest @ post"
    by (simp add: framed_def)
  have ih: "list_all (\<lambda>blk. meta_in_bounds ?p (meta_of blk) \<and>
      payload ?p (meta_of blk) = blk_b blk \<and> crc_ok ?p (meta_of blk))
     (fst (write_blocks (int (length (pre @ ?eb))) rest))"
    unfolding p by (rule Cons.IH)
  have d1: "drop (length pre) ?p = blk_b blk @ PutUint32 (crc32c (blk_b blk)) @ framed rest @ post"
    by (simp add: framed_def)
  have d2: "drop (length pre + length (blk_b blk)) ?p =
      PutUint32 (crc32c (blk_b blk)) @ framed rest @ post"
    using d1 by (metis append_eq_conv_conj drop_drop add.commute)
  have m: "nat (m_offset ?m) = length pre" "nat (m_len ?m) = length (blk_b blk)"
    "nat (m_offset ?m + m_len ?m) = length pre + length (blk_b blk)"
    by (simp_all add: meta_of_def)
  have pl: "payload ?p ?m = blk_b blk"
    unfolding payload_def m d1 by simp
  have sc: "stored_crc ?p ?m = crc32c (blk_b blk)"
    unfolding stored_crc_def m d2 by (rule be32_PutUint32)
  have ib: "meta_in_bounds ?p ?m"
    by (simp add: meta_in_bounds_def meta_of_def framed_def)
  have "fst (write_blocks (int (length pre)) (blk # rest)) =
      blk\<lparr>blk_offset := int (length pre)\<rparr> # fst (write_blocks (int (length (pre @ ?eb))) rest)"
    unfolding write_blocks_Cons by simp
  with ih pl sc ib show ?case
    by (simp add: crc_ok_def)
qed

lemma Bytes_form:
  assumes "cut P c = (None, c')"
  shows "fst (Bytes P c) =
     Inr (chunk_header (format c') (encoding c') @ framed (blocks c') @
          put_metas (map meta_of (fst (write_blocks
            (int (length (chunk_header (format c') (encoding c')))) (blocks c')))) @
          PutUint32 (crc32c (put_metas (map meta_of (fst (write_blocks
            (int (length (chunk_header (format c') (encoding c')))) (blocks c')))))) @
          PutUint64 (uint64_of_int
            (int (length (chunk_header (format c') (encoding c') @ framed (blocks c'))))))"
  by (simp add: Bytes_cut [OF assms] write_blocks_out block_metas_eq)

lemma parse_Bytes:
  assumes c: "cut P c = (None, c')"
    and fmt: "format c' = chunkFormatV1 \<or> format c' = chunkFormatV2"
    and p: "fst (Bytes P c) = Inr p"
    and len: "int (length p) < 2 ^ 63"
  shows "\<exists>c2. NewByteChunk p bsz tsz = Inr c2 \<and>
     map blk_b (blocks c2) = map blk_b (blocks c') \<and>
     encoding c2 = parsed_encoding (format c') (encoding c') \<and>
     head c2 = empty_head"
proof -
  let ?hdr = "chunk_header (format c') (encoding c')"
  let ?blks = "fst (write_blocks (int (length ?hdr)) (blocks c'))"
  let ?ms = "map meta_of ?blks"
  let ?post = "put_metas ?ms @ PutUint32 (crc32c (put_metas ?ms)) @
      PutUint64 (uint64_of_int (int (length (?hdr @ framed (blocks c')))))"
  from p have p': "p = ?hdr @ framed (blocks c') @ ?post"
    by (simp add: Bytes_form [OF c])
  have placed: "list_all (\<lambda>blk. meta_in_bounds p (meta_of blk) \<and>
      payload p (meta_of blk) = blk_b blk \<and> crc_ok p (meta_of blk)) ?blks"
    unfolding p' by (rule write_blocks_placed)
  then have ib: "list_all (meta_in_bounds p) ?ms"
    by (simp add: list_all_iff)
  from placed have ok: "filter (crc_ok p) ?ms = ?ms"
    by (simp add: list_all_iff)
  from placed have "map blk_b (map (block_of p) ?ms) = map blk_b ?blks"
    by (simp add: list_all_iff block_of_def)
  then have pl: "map blk_b (map (block_of p) ?ms) = map blk_b (blocks c')"
    by (simp only: write_blocks_b)
  have "NewByteChunk p bsz tsz =
     Inr \<lparr>blockSize = bsz, targetSize = tsz,
          blocks = map (block_of p) (filter (crc_ok p) ?ms),
          cutBlockSize = sum_list (map m_len (filter (crc_ok p) ?ms)),
          head = empty_head, format = format c',
          encoding = parsed_encoding (format c') (encoding c')\<rparr>"
    using fmt p' len ib by (rule NewByteChunk_metas)
  with pl show ?thesis
    by (simp only: ok block.simps MemChunk.simps) simp
qed

subsection \<open>Iterating over a serialised head\<close>

lemma read_rest_done: "lineSize \<le> int (length got) \<Longrightarrow> read_rest st lineSize got = Some ((None, got), st)"
  by (subst read_rest.simps) simp

lemma line_buffer_ok:
  "\<forall>n. n \<le> line_buffer_cap P n \<Longrightarrow> snd (line_buffer P buf lineSize) = None"
proof -
  assume "\<forall>n. n \<le> line_buffer_cap P n"
  then have "\<not> line_buffer_cap P lineSize < lineSize"
    by (simp add: not_less)
  then show ?thesis
    by (simp add: line_buffer_def Let_def split: option.splits)
qed

lemma moveNext_entry:
  assumes r: "it_reader it = Some \<lparr>pending = serialise_entry e @ rest, ending = eof\<rparr>"
    and short: "int (length (entry_s e)) < maxLineLength"
    and cap: "\<forall>n. n \<le> line_buffer_cap P n"
  shows "moveNext P it =
     Some (Inr ((entry_t e, entry_s e, True),
       it\<lparr>it_reader := Some \<lparr>pending = rest, ending = eof\<rparr>,
          it_buf := Some (fst (line_buffer P (it_buf it) (int (length (entry_s e)))))\<rparr>))"
proof -
  let ?n = "int (length (entry_s e))"
  let ?st2 = "\<lparr>pending = entry_s e @ rest, ending = eof\<rparr>"
  let ?st3 = "\<lparr>pending = rest, ending = eof\<rparr>"
  have p: "serialise_entry e @ rest =
      PutVarint (entry_t e) @ PutUvarint (uint64_of_int ?n) @ entry_s e @ rest"
    by (simp add: serialise_entry_def)
  have v: "ReadVarint \<lparr>pending = serialise_entry e @ rest, ending = eof\<rparr> =
      ((entry_t e, None), \<lparr>pending = PutUvarint (uint64_of_int ?n) @ entry_s e @ rest, ending = eof\<rparr>)"
    unfolding p by (rule ReadVarint_PutVarint)
  have u: "ReadUvarint \<lparr>pending = PutUvarint (uint64_of_int ?n) @ entry_s e @ rest, ending = eof\<rparr> =
      ((uint64_of_int ?n, None), ?st2)"
    by (rule ReadUvarint_PutUvarint)
  from short have n: "int_of_uint64 (uint64_of_int ?n) = ?n"
    by (intro int_of_uint64_of_int) (simp_all add: maxLineLength_def)
  obtain c where lb: "line_buffer P (it_buf it) ?n = (c, None)"
    using line_buffer_ok [OF cap, of "it_buf it" ?n] by (cases "line_buffer P (it_buf it) ?n") auto
  have rd: "Read ?st2 ?n = (entry_s e, None, ?st3)"
  proof (cases "entry_s e = []")
    case True
    then show ?thesis
      by (simp add: Read_def)
  next
    case False
    then have "Read ?st2 ?n =
        (take (length (entry_s e)) (entry_s e @ rest), None,
         \<lparr>pending = drop (length (entry_s e)) (entry_s e @ rest), ending = eof\<rparr>)"
      unfolding Read_def nat_int by simp
    then show ?thesis
      by simp
  qed
  have rr: "read_rest ?st3 ?n (entry_s e) = Some ((None, entry_s e), ?st3)"
    by (rule read_rest_done) simp
  have m: "\<not> maxLineLength \<le> ?n" "\<not> ?n < 0"
    using short by simp_all
  show ?thesis
    unfolding moveNext_def r
    by (simp only: v u n lb rd rr m Let_def option.case prod.case sum.case if_False
        simp_thms fst_conv)
qed

lemma moveNext_end:
  assumes "it_reader it = Some \<lparr>pending = [], ending = ErrEOF\<rparr>"
  shows "moveNext P it = Some (Inr ((0, [], False), it))"
proof -
  have "it\<lparr>it_reader := Some \<lparr>pending = [], ending = ErrEOF\<rparr>, it_err := it_err it\<rparr> = it"
    using assms by simp
  then show ?thesis
    unfolding moveNext_def assms
    by (simp add: ReadVarint_def ReadUvarint_def MaxVarintLen64_def)
qed

lemma Next_reading:
  "it_reader it = Some st \<Longrightarrow>
   Next P it =
     (case moveNext P it of
        None \<Rightarrow> None
      | Some (Inl e) \<Rightarrow> Some (Inl e)
      | Some (Inr ((ts, line, ok), it2)) \<Rightarrow>
          if \<not> ok then Some (Inr (False, snd (Close it2)))
          else Some (Inr (True, it2\<lparr>it_currTs := ts, it_currLine := line\<rparr>)))"
  by (simp add: Next_def)

lemma it_err_Close: "it_err (snd (Close it)) = it_err it"
  by (simp add: Close_def close_def)

lemma drain_entries:
  assumes cap: "\<forall>n. n \<le> line_buffer_cap P n"
  shows "short_lines es \<Longrightarrow>
     it_reader it = Some \<lparr>pending = concat (map serialise_entry es), ending = ErrEOF\<rparr> \<Longrightarrow>
     it_err it = None \<Longrightarrow>
     \<exists>it'. drain P it acc = Some (Inr (acc @ es, it')) \<and> it_err it' = None"
proof (induction es arbitrary: it acc)
  case Nil
  then have r: "it_reader it = Some \<lparr>pending = [], ending = ErrEOF\<rparr>"
    by simp
  have "Next P it = Some (Inr (False, snd (Close it)))"
    by (simp add: Next_reading [OF r] moveNext_end [OF r])
  then have "drain P it acc = Some (Inr (acc, snd (Close it)))"
    by (subst drain.simps) simp
  with Nil(3) show ?case
    by (simp add: it_err_Close)
next
  case (Cons e es)
  let ?rest = "concat (map serialise_entry es)"
  from Cons.prems(2) have r: "it_reader it =
      Some \<lparr>pending = serialise_entry e @ ?rest, ending = ErrEOF\<rparr>"
    by simp
  from Cons.prems(1) have short: "int (length (entry_s e)) < maxLineLength"
    and shorts: "short_lines es"
    by (simp_all add: short_lines_def)
  let ?it2 = "it\<lparr>it_reader := Some \<lparr>pending = ?rest, ending = ErrEOF\<rparr>,
      it_buf := Some (fst (line_buffer P (it_buf it) (int (length (entry_s e))))),
      it_currTs := entry_t e, it_currLine := entry_s e\<rparr>"
  have n: "Next P it = Some (Inr (True, ?it2))"
    by (simp add: Next_reading [OF r] moveNext_entry [OF r short cap])
  have e: "\<lparr>entry_t = it_currTs ?it2, entry_s = it_currLine ?it2\<rparr> = e"
    by simp
  have d: "drain P it acc = drain P ?it2 (acc @ [e])"
    by (subst drain.simps) (simp only: n e option.case sum.case prod.case if_True)
  have "it_reader ?it2 = Some \<lparr>pending = ?rest, ending = ErrEOF\<rparr>" "it_err ?it2 = None"
    using Cons.prems(3) by simp_all
  from Cons.IH [OF shorts this, of "acc @ [e]"] show ?case
    unfolding d by simp
qed

lemma serialise_entry_not_Nil: "serialise_entry e \<noteq> []"
  by (simp add: serialise_entry_def PutVarint_def PutUvarint_not_Nil)

lemma drain_fresh:
  assumes "decompress P enc p = Inr st"
  shows "drain P (newBufferedIterator enc p) acc =
     drain P ((newBufferedIterator enc p)\<lparr>it_reader := Some st\<rparr>) acc"
proof -
  have "Next P (newBufferedIterator enc p) = Next P ((newBufferedIterator enc p)\<lparr>it_reader := Some st\<rparr>)"
    using assms by (simp add: Next_def newBufferedIterator_def)
  then show ?thesis
    by (subst drain.simps, subst (2) drain.simps) simp
qed

text \<open>A block cut from a head iterates to the head's entries.\<close>

lemma block_entries_serialised:
  assumes ok: "codec_ok P enc"
    and s: "serialise P enc hb = Inr out"
    and ne: "hb_entries hb \<noteq> []"
    and short: "short_lines (hb_entries hb)"
    and b: "blk_b blk = out"
  shows "block_entries P enc blk = Some (Inr (hb_entries hb, None))"
proof -
  let ?d = "concat (map serialise_entry (hb_entries hb))"
  from ok obtain out' where w: "compress P enc ?d = Written out'"
    and o: "?d \<noteq> [] \<longrightarrow> out' \<noteq> []"
    and r: "decompress P enc out' = Inr \<lparr>pending = ?d, ending = ErrEOF\<rparr>"
    unfolding codec_ok_def by blast
  from s w have out: "out' = out"
    by (simp add: serialise_def)
  from ne have "?d \<noteq> []"
    by (cases "hb_entries hb") (simp_all add: serialise_entry_not_Nil)
  with o out have ne': "out \<noteq> []"
    by simp
  from ok have cap: "\<forall>n. n \<le> line_buffer_cap P n"
    by (simp add: codec_ok_def)
  let ?it = "(newBufferedIterator enc out)\<lparr>it_reader := Some \<lparr>pending = ?d, ending = ErrEOF\<rparr>\<rparr>"
  have "it_reader ?it = Some \<lparr>pending = ?d, ending = ErrEOF\<rparr>" "it_err ?it = None"
    by (simp_all add: newBufferedIterator_def)
  from drain_entries [OF cap short this, of "[]"]
  obtain it' where "drain P ?it [] = Some (Inr (hb_entries hb, it'))" "it_err it' = None"
    by auto
  then have "drain P (newBufferedIterator enc out) [] = Some (Inr (hb_entries hb, it'))"
    using drain_fresh [of P enc out, OF r [unfolded out]] by simp
  with \<open>it_err it' = None\<close> ne' b show ?thesis
    by (simp add: block_entries_def Error_def)
qed

subsection \<open>Building a chunk\<close>

lemma block_entries_b:
  "blk_b x = blk_b y \<Longrightarrow> block_entries P enc x = block_entries P enc y"
  by (simp add: block_entries_def)

lemma blocks_entries_b:
  "map blk_b xs = map blk_b ys \<Longrightarrow> blocks_entries P enc xs = blocks_entries P enc ys"
proof (induction xs arbitrary: ys)
  case Nil
  then show ?case by simp
next
  case (Cons x xs)
  then obtain y ys' where ys: "ys = y # ys'" and b: "blk_b x = blk_b y"
    and m: "map blk_b xs = map blk_b ys'"
    by (cases ys) auto
  show ?case
    by (simp only: ys blocks_entries.simps Cons.IH [OF m] block_entries_b [OF b, of P enc])
qed

lemma blocks_entries_snoc:
  "blocks_entries P enc xs = Some (Inr (es1, None)) \<Longrightarrow>
   block_entries P enc x = Some (Inr (es2, None)) \<Longrightarrow>
   blocks_entries P enc (xs @ [x]) = Some (Inr (es1 @ es2, None))"
proof (induction xs arbitrary: es1)
  case Nil
  then show ?case by simp
next
  case (Cons y ys)
  from Cons.prems(1) obtain ea eb
    where y: "block_entries P enc y = Some (Inr (ea, None))"
      and ys: "blocks_entries P enc ys = Some (Inr (eb, None))"
      and es1: "es1 = ea @ eb"
    by (auto split: option.splits sum.splits prod.splits)
  from Cons.IH [OF ys Cons.prems(2)] y es1 show ?case
    by simp
qed

lemma built_NewMemChunk: "built P enc (NewMemChunk enc bsz tsz) []"
  by (simp add: built_def NewMemChunk_def empty_head_def)

lemma built_cut:
  assumes b: "built P enc c es" and ok: "codec_ok P enc" and short: "short_lines es"
  shows "\<exists>c'. cut P c = (None, c') \<and> built P enc c' es \<and> hb_entries (head c') = []"
proof (cases "isEmpty (head c)")
  case True
  with b show ?thesis
    by (simp add: cut_def isEmpty_def)
next
  case False
  then have ne: "hb_entries (head c) \<noteq> []"
    by (simp add: isEmpty_def)
  from b obtain es1 where e1: "blocks_entries P enc (blocks c) = Some (Inr (es1, None))"
    and es: "es = es1 @ hb_entries (head c)"
    and enc: "encoding c = enc" and fmt: "format c = chunkFormatV2"
    and mx: "hb_maxt (head c) = entry_t (last es)"
    using ne unfolding built_def by auto
  from ok obtain out where "compress P enc (concat (map serialise_entry (hb_entries (head c)))) = Written out"
    unfolding codec_ok_def by blast
  then have s: "serialise P enc (head c) = Inr out"
    by (simp add: serialise_def)
  let ?blk = "\<lparr>blk_b = out, blk_numEntries = int (length (hb_entries (head c))),
      blk_mint = hb_mint (head c), blk_maxt = hb_maxt (head c), blk_offset = 0,
      blk_uncompressedSize = hb_size (head c)\<rparr>"
  let ?c' = "c\<lparr>blocks := blocks c @ [?blk], cutBlockSize := cutBlockSize c + int (length out),
      head := (head c)\<lparr>hb_entries := [], hb_mint := 0, hb_size := 0\<rparr>\<rparr>"
  have c: "cut P c = (None, ?c')"
    using False s enc by (simp add: cut_nonempty)
  from short es have "short_lines (hb_entries (head c))"
    by (simp add: short_lines_def)
  with ok s ne have "block_entries P enc ?blk = Some (Inr (hb_entries (head c), None))"
    by (intro block_entries_serialised) simp_all
  with e1 have "blocks_entries P enc (blocks c @ [?blk]) = Some (Inr (es1 @ hb_entries (head c), None))"
    by (rule blocks_entries_snoc)
  with es enc fmt mx ne have "built P enc ?c' es"
    by (simp add: built_def)
  with c show ?thesis
    by simp
qed

lemma built_Append:
  assumes b: "built P enc c es" and ok: "codec_ok P enc" and short: "short_lines (es @ [e])"
    and ord: "es \<noteq> [] \<longrightarrow> entry_t (last es) \<le>s entry_t e"
  shows "\<exists>c'. Append P c e = (None, c') \<and> built P enc c' (es @ [e])"
proof -
  let ?hb = "(head c)\<lparr>hb_entries := hb_entries (head c) @ [\<lparr>entry_t = entry_t e, entry_s = entry_s e\<rparr>],
      hb_mint := (if hb_mint (head c) = 0 \<or> entry_t e <s hb_mint (head c) then entry_t e
                  else hb_mint (head c)),
      hb_maxt := entry_t e,
      hb_size := hb_size (head c) + int (length (entry_s e))\<rparr>"
  have nlt: "\<And>x y :: 64 word. x \<le>s y \<Longrightarrow> \<not> y <s x"
    by (simp add: word_sle_eq word_sless_alt)
  from b ord have 1: "\<not> (isEmpty (head c) \<and> 0 < length (blocks c) \<and>
      entry_t e <s blk_maxt (last (blocks c)))"
    by (auto simp: built_def isEmpty_def nlt split: if_splits)
  from b ord have 2: "\<not> (\<not> isEmpty (head c) \<and> entry_t e <s hb_maxt (head c))"
    by (auto simp: built_def isEmpty_def nlt split: if_splits)
  then have h: "hb_append (head c) (entry_t e) (entry_s e) = (None, ?hb)"
    by (auto simp: hb_append_def)
  have e: "\<lparr>entry_t = entry_t e, entry_s = entry_s e\<rparr> = e"
    by simp
  from b have b1: "built P enc (c\<lparr>head := ?hb\<rparr>) (es @ [e])"
    unfolding built_def by (auto simp: e)
  show ?thesis
  proof (cases "blockSize c \<le> hb_size ?hb")
    case True
    from built_cut [OF b1 ok short] obtain c' where "cut P (c\<lparr>head := ?hb\<rparr>) = (None, c')"
      and "built P enc c' (es @ [e])"
      by blast
    with 1 h True show ?thesis
      by (simp add: Append_def)
  next
    case False
    with 1 h b1 show ?thesis
      by (simp add: Append_def)
  qed
qed

lemma in_order_snoc:
  "in_order (es @ [e]) \<Longrightarrow> es \<noteq> [] \<longrightarrow> entry_t (last es) \<le>s entry_t e"
  by (auto simp: in_order_def sorted_wrt_append)

lemma built_append_all:
  assumes ok: "codec_ok P enc"
  shows "built P enc c done \<Longrightarrow> in_order (done @ todo) \<Longrightarrow> short_lines (done @ todo) \<Longrightarrow>
     \<exists>c'. append_all P c todo = (None, c') \<and> built P enc c' (done @ todo)"
proof (induction todo arbitrary: c "done")
  case Nil
  then show ?case by simp
next
  case (Cons e todo)
  from Cons.prems(2) have "in_order (done @ [e])"
    by (simp add: in_order_def sorted_wrt_append)
  then have ord: "done \<noteq> [] \<longrightarrow> entry_t (last done) \<le>s entry_t e"
    by (rule in_order_snoc)
  from Cons.prems(3) have short: "short_lines (done @ [e])"
    by (simp add: short_lines_def)
  from built_Append [OF Cons.prems(1) ok short ord]
  obtain c1 where a: "Append P c e = (None, c1)" and b1: "built P enc c1 (done @ [e])"
    by blast
  from Cons.IH [OF b1] Cons.prems(2,3)
  obtain c' where "append_all P c1 todo = (None, c')" "built P enc c' ((done @ [e]) @ todo)"
    by auto
  with a show ?case
    by simp
qed

subsection \<open>The round trip\<close>

lemma chunk_entries_sealed:
  "hb_entries (head c) = [] \<Longrightarrow> chunk_entries P c = blocks_entries P (encoding c) (blocks c)"
  by (simp add: chunk_entries_def split: option.splits sum.splits)

text \<open>The entries read back are those the blocks of the built and cut chunk iterate to.\<close>

lemma roundtrip_blocks:
  assumes a: "append_all P (NewMemChunk enc bsz tsz) es = (None, c1)"
    and c: "cut P c1 = (None, c1')"
    and fmt: "format c1' = chunkFormatV2" and enc: "encoding c1' = enc"
    and len: "\<forall>p. build_bytes P enc bsz tsz es = Inr p \<longrightarrow> int (length p) < 2 ^ 63"
  shows "roundtrip P enc bsz tsz es = blocks_entries P enc (blocks c1')"
proof -
  obtain p where p: "fst (Bytes P c1) = Inr p"
    using Bytes_form [OF c] by blast
  with a have bb: "build_bytes P enc bsz tsz es = Inr p"
    by (simp add: build_bytes_def)
  with len have l: "int (length p) < 2 ^ 63"
    by blast
  from fmt have f: "format c1' = chunkFormatV1 \<or> format c1' = chunkFormatV2"
    by simp
  from parse_Bytes [OF c f p l, of bsz tsz] obtain c2
    where n: "NewByteChunk p bsz tsz = Inr c2"
      and b: "map blk_b (blocks c2) = map blk_b (blocks c1')"
      and e: "encoding c2 = parsed_encoding (format c1') (encoding c1')"
      and h: "head c2 = empty_head"
    by blast
  from e fmt enc have e': "encoding c2 = enc"
    by (simp add: parsed_encoding_def chunkFormatV1_def chunkFormatV2_def)
  from h have "hb_entries (head c2) = []"
    by (simp add: empty_head_def)
  then have "chunk_entries P c2 = blocks_entries P enc (blocks c2)"
    by (simp add: chunk_entries_sealed e')
  also have "\<dots> = blocks_entries P enc (blocks c1')"
    using b by (rule blocks_entries_b)
  finally show ?thesis
    by (simp add: roundtrip_def bb n)
qed

text \<open>
  C1, as amended: for entries in timestamp order whose lines are shorter than
  \<open>2^30\<close> bytes, and an encoding whose reader returns what its writer was given,
  appending the entries to a new chunk, serialising it with \<^verbatim>\<open>Bytes\<close> and parsing
  the bytes with \<^verbatim>\<open>NewByteChunk\<close> gives a chunk whose iteration returns exactly the
  entries, in order, without error. The serialised chunk is shorter than \<open>2^63\<close>
  bytes, as every Go slice is.
\<close>

theorem roundtrip_entries:
  assumes "codec_ok P enc" and "in_order es" and "short_lines es"
    and "\<forall>p. build_bytes P enc bsz tsz es = Inr p \<longrightarrow> int (length p) < 2 ^ 63"
  shows "roundtrip P enc bsz tsz es = Some (Inr (es, None))"
proof -
  have "built P enc (NewMemChunk enc bsz tsz) []"
    by (rule built_NewMemChunk)
  from built_append_all [OF assms(1) this, of es] assms(2,3)
  obtain c1 where a: "append_all P (NewMemChunk enc bsz tsz) es = (None, c1)"
    and b1: "built P enc c1 es"
    by auto
  from built_cut [OF b1 assms(1,3)] obtain c1' where c: "cut P c1 = (None, c1')"
    and b: "built P enc c1' es" and h: "hb_entries (head c1') = []"
    by blast
  from b h have be: "blocks_entries P enc (blocks c1') = Some (Inr (es, None))"
    and fmt: "format c1' = chunkFormatV2" and enc: "encoding c1' = enc"
    by (auto simp: built_def)
  show ?thesis
    unfolding roundtrip_blocks [OF a c fmt enc assms(4)] by (rule be)
qed

subsection \<open>Encoded sizes, and a line too long to read back\<close>

lemma length_PutUvarint_loop:
  "i \<le> 9 \<Longrightarrow> unat x < 2 ^ (64 - 7 * i) \<Longrightarrow> length (PutUvarint x) \<le> 10 - i"
proof (induction x arbitrary: i rule: PutUvarint.induct)
  case (1 x)
  show ?case
  proof (cases "0x80 \<le> x")
    case True
    from varint_step_bound [OF True "1.prems"]
    have i: "i \<le> 8" and b: "unat (drop_bit 7 x) < 2 ^ (64 - 7 * (i + 1))"
      by simp_all
    from i have "i + 1 \<le> 9"
      by simp
    from "1.IH" [OF True this b] i show ?thesis
      by (simp add: PutUvarint_big [OF True])
  next
    case False
    with "1.prems"(1) show ?thesis
      by (simp add: PutUvarint_small)
  qed
qed

lemma length_PutUvarint: "length (PutUvarint x) \<le> 10"
  using length_PutUvarint_loop [of 0 x] unsigned_less [of x, where 'a = nat] by simp

lemma length_put_meta: "length (put_meta m) \<le> 50"
  using length_PutUvarint [of "uint64_of_int (m_numEntries m)"]
    length_PutUvarint [of "zigzag (m_mint m)"] length_PutUvarint [of "zigzag (m_maxt m)"]
    length_PutUvarint [of "uint64_of_int (m_offset m)"]
    length_PutUvarint [of "uint64_of_int (m_len m)"]
  by (simp add: put_meta_def PutVarint_def)

lemma codec_ok_none_pools: "codec_ok none_pools enc"
  by (simp add: codec_ok_def none_pools_def)

lemma decompress_none_pools:
  "decompress none_pools enc p = Inr \<lparr>pending = p, ending = ErrEOF\<rparr>"
  by (simp add: none_pools_def)

text \<open>A line of \<open>2^30\<close> bytes or more ends the iteration with an error.\<close>

lemma moveNext_long:
  assumes r: "it_reader it = Some \<lparr>pending = serialise_entry e @ rest, ending = eof\<rparr>"
    and long: "maxLineLength \<le> int (length (entry_s e))"
    and len: "int (length (entry_s e)) < 2 ^ 63"
  shows "moveNext P it =
     Some (Inr ((0, [], False),
       it\<lparr>it_reader := Some \<lparr>pending = entry_s e @ rest, ending = eof\<rparr>,
          it_err := Some (ErrLineTooLong (int (length (entry_s e))))\<rparr>))"
proof -
  let ?n = "int (length (entry_s e))"
  have p: "serialise_entry e @ rest =
      PutVarint (entry_t e) @ PutUvarint (uint64_of_int ?n) @ entry_s e @ rest"
    by (simp add: serialise_entry_def)
  have v: "ReadVarint \<lparr>pending = serialise_entry e @ rest, ending = eof\<rparr> =
      ((entry_t e, None), \<lparr>pending = PutUvarint (uint64_of_int ?n) @ entry_s e @ rest, ending = eof\<rparr>)"
    unfolding p by (rule ReadVarint_PutVarint)
  have u: "ReadUvarint \<lparr>pending = PutUvarint (uint64_of_int ?n) @ entry_s e @ rest, ending = eof\<rparr> =
      ((uint64_of_int ?n, None), \<lparr>pending = entry_s e @ rest, ending = eof\<rparr>)"
    by (rule ReadUvarint_PutUvarint)
  from len have n: "int_of_uint64 (uint64_of_int ?n) = ?n"
    by (intro int_of_uint64_of_int) simp_all
  show ?thesis
    unfolding moveNext_def r
    by (simp only: v u n long Let_def option.case prod.case sum.case if_True if_False simp_thms)
qed

lemma long_entry_simps:
  "entry_t long_entry = 0" "length (entry_s long_entry) = 1073741824"
  by (simp_all only: long_entry_def entry.select_convs length_replicate)

lemma length_long: "int (length (entry_s long_entry)) = 1073741824"
  by (simp only: long_entry_simps)

lemma long_entry_eta: "\<lparr>entry_t = 0, entry_s = entry_s long_entry\<rparr> = long_entry"
  by (simp only: long_entry_def entry.select_convs)

lemma append_long: "append_all none_pools (NewMemChunk 0 256 0) [long_entry] = (None, chunk_long)"
proof -
  have "Append none_pools (NewMemChunk 0 256 0) long_entry = (None, chunk_long)"
    by (simp add: Append_def hb_append_def cut_def serialise_none_pools isEmpty_def
        NewMemChunk_def empty_head_def chunk_long_def long_entry_simps long_entry_eta)
  then show ?thesis
    by simp
qed

lemma cut_long: "cut none_pools chunk_long = (None, chunk_long)"
  by (simp add: cut_def isEmpty_def chunk_long_def)

lemma blocks_entries_long:
  "blocks_entries none_pools 0 (blocks chunk_long) =
     Some (Inr ([], Some (ErrLineTooLong 1073741824)))"
proof -
  let ?b = "serialise_entry long_entry"
  let ?it0 = "newBufferedIterator 0 ?b"
  let ?it1 = "?it0\<lparr>it_reader := Some \<lparr>pending = ?b, ending = ErrEOF\<rparr>\<rparr>"
  let ?it2 = "?it1\<lparr>it_reader := Some \<lparr>pending = entry_s long_entry @ [], ending = ErrEOF\<rparr>,
      it_err := Some (ErrLineTooLong (int (length (entry_s long_entry))))\<rparr>"
  have r: "it_reader ?it1 = Some \<lparr>pending = ?b @ [], ending = ErrEOF\<rparr>"
    by simp
  have m: "moveNext none_pools ?it1 = Some (Inr ((0, [], False), ?it2))"
    using r by (rule moveNext_long) (simp_all add: length_long maxLineLength_def)
  have n: "Next none_pools ?it1 = Some (Inr (False, snd (Close ?it2)))"
    by (simp only: Next_reading [OF r] m option.case sum.case prod.case) simp
  have "drain none_pools ?it0 [] = drain none_pools ?it1 []"
    by (rule drain_fresh) (rule decompress_none_pools)
  also have "\<dots> = Some (Inr ([], snd (Close ?it2)))"
    by (subst drain.simps) (simp only: n option.case sum.case prod.case if_False)
  finally have d: "drain none_pools ?it0 [] = Some (Inr ([], snd (Close ?it2)))" .
  have e: "Error (snd (Close ?it2)) = Some (ErrLineTooLong 1073741824)"
    by (simp add: Error_def it_err_Close length_long)
  have "block_entries none_pools 0 (hd (blocks chunk_long)) =
      Some (Inr ([], Some (ErrLineTooLong 1073741824)))"
    using serialise_entry_not_Nil [of long_entry]
    by (simp add: block_entries_def chunk_long_def d Error_def it_err_Close length_long)
  then show ?thesis
    by (simp add: chunk_long_def)
qed

lemma length_put_metas_one: "length (put_metas [m]) \<le> 60"
  using length_PutUvarint [of "uint64_of_int (int (length [m]))"] length_put_meta [of m]
  by (simp add: put_metas_def)

lemma length_serialise_long: "length (serialise_entry long_entry) \<le> 1073741844"
  using length_PutUvarint [of "zigzag (entry_t long_entry)"]
    length_PutUvarint [of "uint64_of_int (int (length (entry_s long_entry)))"]
  by (simp add: serialise_entry_def PutVarint_def long_entry_simps(2))

lemma build_long: "build_bytes none_pools 0 256 0 [long_entry] = fst (Bytes none_pools chunk_long)"
  by (simp only: build_bytes_def append_long prod.case option.case)

lemma length_build_long:
  "\<forall>p. build_bytes none_pools 0 256 0 [long_entry] = Inr p \<longrightarrow> int (length p) < 2 ^ 63"
proof (intro allI impI)
  fix p
  let ?b = "serialise_entry long_entry"
  let ?blk = "\<lparr>blk_b = ?b, blk_numEntries = 1, blk_mint = 0, blk_maxt = 0, blk_offset = 0,
      blk_uncompressedSize = 1073741824\<rparr>"
  define m where "m = meta_of (?blk\<lparr>blk_offset := int (length (chunk_header chunkFormatV2 0))\<rparr>)"
  assume "build_bytes none_pools 0 256 0 [long_entry] = Inr p"
  then have "fst (Bytes none_pools chunk_long) = Inr p"
    by (simp only: build_long)
  then have p: "p = chunk_header chunkFormatV2 0 @ framed [?blk] @
      put_metas [m] @ PutUint32 (crc32c (put_metas [m])) @
      PutUint64 (uint64_of_int (int (length (chunk_header chunkFormatV2 0 @ framed [?blk]))))"
    unfolding Bytes_form [OF cut_long] m_def by (simp add: chunk_long_def write_blocks_Cons)
  have h: "length (chunk_header chunkFormatV2 0) = 6"
    by (simp add: chunk_header_def)
  have f: "length (framed [?blk]) = length ?b + 4"
    by (simp add: framed_def)
  have "length p \<le> 6 + (1073741844 + 4) + 60 + 4 + 8"
    unfolding p length_append h f length_PutUint32 length_PutUint64
    using length_serialise_long length_put_metas_one [of m]
    by linarith
  then show "int (length p) < 2 ^ 63"
    by simp
qed

text \<open>
  C1 as the specification states it fails: a single entry whose line has \<open>2^30\<close>
  bytes is appended and serialised without error, and the bytes parse, but the
  iteration returns no entry and ends with the line-too-long error.
\<close>

theorem roundtrip_counterexample:
  "codec_ok none_pools 0 \<and> in_order [long_entry] \<and>
   roundtrip none_pools 0 256 0 [long_entry] =
     Some (Inr ([], Some (ErrLineTooLong 1073741824)))"
proof -
  have f: "format chunk_long = chunkFormatV2" and e: "encoding chunk_long = 0"
    by (simp_all add: chunk_long_def)
  have "roundtrip none_pools 0 256 0 [long_entry] =
      blocks_entries none_pools 0 (blocks chunk_long)"
    using append_long cut_long f e length_build_long by (rule roundtrip_blocks)
  then show ?thesis
    by (simp add: codec_ok_none_pools in_order_def blocks_entries_long)
qed

lemma PutUvarint_one: "PutUvarint 1 = [1]"
  by (simp add: PutUvarint_small word_le_nat_alt)

lemma build_s1:
  "\<exists>p. build_bytes none_pools 0 256 0 entries_s1 = Inr p \<and> length p = 45"
  by (simp add: build_bytes_def entries_s1_def Append_def hb_append_def cut_def
      serialise_none_pools isEmpty_def NewMemChunk_def empty_head_def Bytes_def Let_def
      chunk_header_def block_metas_def block_meta_def serialise_entry_def eval_put
      word_sle_eq chunkFormatV2_def PutUvarint_one)

theorem roundtrip_entries_witness:
  "codec_ok none_pools 0 \<and> in_order entries_s1 \<and> short_lines entries_s1 \<and>
   (\<exists>p. build_bytes none_pools 0 256 0 entries_s1 = Inr p \<and> int (length p) < 2 ^ 63) \<and>
   roundtrip none_pools 0 256 0 entries_s1 = Some (Inr (entries_s1, None))"
proof -
  have c: "codec_ok none_pools 0"
    by (rule codec_ok_none_pools)
  have o: "in_order entries_s1"
    by (simp add: in_order_def entries_s1_def word_sle_eq)
  have s: "short_lines entries_s1"
    by (simp add: short_lines_def entries_s1_def maxLineLength_def)
  from build_s1 obtain p where p: "build_bytes none_pools 0 256 0 entries_s1 = Inr p"
    and l: "length p = 45"
    by blast
  from l have b: "int (length p) < 2 ^ 63"
    by simp
  from p b have a: "\<forall>q. build_bytes none_pools 0 256 0 entries_s1 = Inr q \<longrightarrow> int (length q) < 2 ^ 63"
    by simp
  from roundtrip_entries [OF c o s a] c o s p b show ?thesis
    by blast
qed

end
